theory Spec2Isabelle
  imports Main
begin

section \<open>Static tables of \<open>src/index.tsx\<close>\<close>

text \<open>
  A text is a list of characters, read as the code points 0 to 255; texts with code points
  beyond 255 are outside the model. Every key of the character table is an ASCII
  character.
\<close>

definition EMOJI_TEXT_MAPPING :: "(char \<times> string) list" where
  "EMOJI_TEXT_MAPPING =
    [(CHR ''A'', ''A_''), (CHR ''B'', ''B_''), (CHR ''C'', ''C_''), (CHR ''D'', ''D_''),
     (CHR ''E'', ''E_''), (CHR ''F'', ''F_''), (CHR ''G'', ''G_''), (CHR ''H'', ''H_''),
     (CHR ''I'', ''I_''), (CHR ''J'', ''J_''), (CHR ''K'', ''K_''), (CHR ''L'', ''L_''),
     (CHR ''M'', ''M_''), (CHR ''N'', ''N_''), (CHR ''O'', ''O_''), (CHR ''P'', ''P_''),
     (CHR ''Q'', ''Q_''), (CHR ''R'', ''R_''), (CHR ''S'', ''S_''), (CHR ''T'', ''T_''),
     (CHR ''U'', ''U_''), (CHR ''V'', ''V_''), (CHR ''W'', ''W_''), (CHR ''X'', ''X_''),
     (CHR ''Y'', ''Y_''), (CHR ''Z'', ''Z_''), (CHR '' '', ''Empty_Space_Nothing_Tab''),
     (CHR ''?'', ''QuestionMark''), (CHR ''!'', ''ExclamationMark''), (CHR ''#'', ''Hashtag''),
     (CHR ''/'', ''Slash''), (CHR ''@'', ''AtSign''), (CHR ''$'', ''DollarSign''),
     (CHR '','', ''Comma''), (CHR ''.'', ''Dot''), (CHR '':'', ''Colon''),
     (CHR '')'', ''RightParentheses''), (CHR ''('', ''LeftParentheses''),
     (CHR ''_'', ''Underscore''), (CHR ''*'', ''Asterisk''), (CHR ''1'', ''Number1One''),
     (CHR ''2'', ''Number2Two''), (CHR ''3'', ''Number3Three''), (CHR ''4'', ''Number4Four''),
     (CHR ''5'', ''Number5Five''), (CHR ''6'', ''Number6Six''), (CHR ''7'', ''Number7Seven''),
     (CHR ''8'', ''Number8Eight''), (CHR ''9'', ''Number9Nine''), (CHR ''0'', ''Number0Zero'')]"

definition GUILD_IDS :: "(nat \<times> string) list" where
  "GUILD_IDS =
    [(1, ''1339215110685724742''), (2, ''1339264485386621078''),
     (3, ''1339265921113391226''), (4, ''1339267572931100764''),
     (5, ''1339268634325024800''), (6, ''1339272089621889195'')]"

datatype error_message =
    NO_REACT_PERMISSION
  | NO_NITRO
  | NOT_IN_SERVER
  | TOO_MANY_CHARS
  | NOT_ENOUGH_GUILDS string
  | SINGLE_CHAR_LIMIT string
  | TOO_MANY_CHARS_TOTAL
  | INVALID_CHAR
  | EMPTY_TEXT

record emoji =
  emoji_name :: string
  emoji_id :: string

record guild =
  guild_id :: string
  emojis :: "emoji list"

section \<open>String primitives of the host language\<close>

text \<open>
  \<open>String.prototype.toUpperCase\<close>. The upper-case form of a character is a string: the
  letters \<open>a\<close> to \<open>z\<close> and the accented letters from code point 224 to 254 (without the
  division sign, 247) have the letter 32 code points below, the sharp s (223) has the two
  letters \<open>SS\<close>, and every other character is unchanged. The upper-case forms of the
  micro sign (181) and of y with diaeresis (255) lie beyond 255; the model keeps these two
  characters in their place. They and their upper-case forms are not keys of the character
  table, and no other character of the range has them as its upper-case form.
\<close>

definition lower_case :: string where
  "lower_case =
     ''abcdefghijklmnopqrstuvwxyz''
     @ [CHR 0xE0, CHR 0xE1, CHR 0xE2, CHR 0xE3, CHR 0xE4, CHR 0xE5, CHR 0xE6, CHR 0xE7,
        CHR 0xE8, CHR 0xE9, CHR 0xEA, CHR 0xEB, CHR 0xEC, CHR 0xED, CHR 0xEE, CHR 0xEF,
        CHR 0xF0, CHR 0xF1, CHR 0xF2, CHR 0xF3, CHR 0xF4, CHR 0xF5, CHR 0xF6,
        CHR 0xF8, CHR 0xF9, CHR 0xFA, CHR 0xFB, CHR 0xFC, CHR 0xFD, CHR 0xFE]"

definition upper_case :: string where
  "upper_case =
     ''ABCDEFGHIJKLMNOPQRSTUVWXYZ''
     @ [CHR 0xC0, CHR 0xC1, CHR 0xC2, CHR 0xC3, CHR 0xC4, CHR 0xC5, CHR 0xC6, CHR 0xC7,
        CHR 0xC8, CHR 0xC9, CHR 0xCA, CHR 0xCB, CHR 0xCC, CHR 0xCD, CHR 0xCE, CHR 0xCF,
        CHR 0xD0, CHR 0xD1, CHR 0xD2, CHR 0xD3, CHR 0xD4, CHR 0xD5, CHR 0xD6,
        CHR 0xD8, CHR 0xD9, CHR 0xDA, CHR 0xDB, CHR 0xDC, CHR 0xDD, CHR 0xDE]"

definition toUpperCase_char :: "char \<Rightarrow> string" where
  "toUpperCase_char c =
     (if c = CHR 0xDF then ''SS''
      else case map_of (zip lower_case upper_case) c of
             Some u \<Rightarrow> [u]
           | None \<Rightarrow> [c])"

definition toUpperCase :: "string \<Rightarrow> string" where
  "toUpperCase s = concat (map toUpperCase_char s)"

text \<open>The white space that \<open>String.prototype.trim\<close> strips: TAB, LF, VT, FF, CR, SP, NBSP.\<close>

definition isWhiteSpace :: "char \<Rightarrow> bool" where
  "isWhiteSpace c \<longleftrightarrow>
     c \<in> set [CHR 0x09, CHR 0x0A, CHR 0x0B, CHR 0x0C, CHR 0x0D, CHR 0x20, CHR 0xA0]"

definition trim :: "string \<Rightarrow> string" where
  "trim s = rev (dropWhile isWhiteSpace (rev (dropWhile isWhiteSpace s)))"

text \<open>\<open>Array.prototype.join\<close> on an array of strings.\<close>

fun join :: "string \<Rightarrow> string list \<Rightarrow> string" where
  "join sep [] = []"
| "join sep [x] = x"
| "join sep (x # y # ys) = x @ sep @ join sep (y # ys)"

section \<open>Plain objects keyed by one-character strings\<close>

text \<open>
  An object is the list of its own properties in creation order. Reading a missing key
  gives \<open>undefined\<close> (\<open>None\<close>); writing an existing key keeps its place, writing a new
  key appends it.
\<close>

type_synonym 'v js_object = "(char \<times> 'v) list"

definition obj_get :: "'v js_object \<Rightarrow> char \<Rightarrow> 'v option" where
  "obj_get obj k = map_of obj k"

fun obj_set :: "'v js_object \<Rightarrow> char \<Rightarrow> 'v \<Rightarrow> 'v js_object" where
  "obj_set [] k v = [(k, v)]"
| "obj_set (p # ps) k v = (if fst p = k then (k, v) # ps else p # obj_set ps k v)"

text \<open>
  Property enumeration order: keys that are canonical array indices (for one-character
  keys, the digits) come first in ascending numeric order, then all other keys in
  creation order.
\<close>

definition index_keys :: string where
  "index_keys = ''0123456789''"

definition array_index :: "char \<Rightarrow> nat option" where
  "array_index k = map_of (zip index_keys [0, 1, 2, 3, 4, 5, 6, 7, 8, 9]) k"

definition key_index :: "char \<Rightarrow> nat" where
  "key_index k = (case array_index k of Some i \<Rightarrow> i | None \<Rightarrow> 0)"

definition Object_entries :: "'v js_object \<Rightarrow> (char \<times> 'v) list" where
  "Object_entries obj =
     sort_key (\<lambda>p. key_index (fst p)) (filter (\<lambda>p. array_index (fst p) \<noteq> None) obj)
     @ filter (\<lambda>p. array_index (fst p) = None) obj"

definition Object_values :: "'v js_object \<Rightarrow> 'v list" where
  "Object_values obj = map snd (Object_entries obj)"

text \<open>\<open>Math.max\<close> of a spread array; \<open>None\<close> is \<open>-Infinity\<close>, the value for no argument.\<close>

fun Math_max :: "nat list \<Rightarrow> nat option" where
  "Math_max [] = None"
| "Math_max (x # xs) = (case Math_max xs of None \<Rightarrow> Some x | Some m \<Rightarrow> Some (max x m))"

fun greater :: "nat option \<Rightarrow> nat \<Rightarrow> bool" where
  "greater None n = False"
| "greater (Some m) n = (n < m)"

section \<open>The validator\<close>

text \<open>\<open>countCharacters\<close>: the loop body, then the loop over the string.\<close>

definition count_step :: "nat js_object \<Rightarrow> char \<Rightarrow> nat js_object" where
  "count_step charCount char =
     (case obj_get charCount char of
        Some n \<Rightarrow> if n \<noteq> 0 then obj_set charCount char (n + 1) else obj_set charCount char 1
      | None \<Rightarrow> obj_set charCount char 1)"

definition countCharacters :: "string \<Rightarrow> nat js_object" where
  "countCharacters str = foldl count_step [] str"

text \<open>
  The truth value of \<open>EMOJI_TEXT_MAPPING[upperChar]\<close>: the key is one character of the
  table and its entry is not the empty string.
\<close>

definition mapped :: "string \<Rightarrow> bool" where
  "mapped key =
     (case key of
        [c] \<Rightarrow> (case map_of EMOJI_TEXT_MAPPING c of Some n \<Rightarrow> n \<noteq> [] | None \<Rightarrow> False)
      | _ \<Rightarrow> False)"

text \<open>The character loop of \<open>validateText\<close>; \<open>True\<close> when it returns \<open>INVALID_CHAR\<close>.\<close>

fun has_invalid_char :: "string \<Rightarrow> bool" where
  "has_invalid_char [] = False"
| "has_invalid_char (char # rest) =
     (let upperChar = toUpperCase_char char
      in if \<not> mapped upperChar \<and> upperChar \<noteq> '' '' then True
         else has_invalid_char rest)"

text \<open>
  \<open>validateText\<close>; \<open>guilds\<close> is the dialog's membership list, of which only the length
  is read. \<open>None\<close> is the source's \<open>null\<close>.
\<close>

definition validateText :: "guild list \<Rightarrow> string \<Rightarrow> error_message option" where
  "validateText guilds input =
     (if trim input = [] then Some EMPTY_TEXT
      else if length input > 20 then Some TOO_MANY_CHARS_TOTAL
      else if has_invalid_char input then Some INVALID_CHAR
      else
        (let charCount = countCharacters (toUpperCase input);
             maxCount = Math_max (Object_values charCount)
         in if greater maxCount 6 then Some TOO_MANY_CHARS
            else if greater maxCount (length guilds) then
              (let charsExceeding =
                     map (\<lambda>p. [fst p])
                       (filter (\<lambda>p. snd p > length guilds) (Object_entries charCount))
               in if length charsExceeding = 1 then Some (SINGLE_CHAR_LIMIT (charsExceeding ! 0))
                  else Some (NOT_ENOUGH_GUILDS (join '', '' charsExceeding)))
            else None))"

section \<open>The host application\<close>

text \<open>
  The REST transport, the channel store and the permission store belong to the host. A
  request either resolves with a body or rejects with an error. The reaction endpoint is
  asked once per reaction, so its answer is given per call, numbered from 0 within a run.
\<close>

datatype rest_error = Rejected nat

record message =
  channel_id :: string
  message_id :: string

record network =
  put_reaction :: "nat \<Rightarrow> rest_error option"
  get_user_guilds :: "rest_error + string list"
  get_guild_emojis :: "string \<Rightarrow> rest_error + emoji list"

record channel =
  isPrivate :: bool

record host =
  getChannel :: "string \<Rightarrow> channel option"
  can :: "int \<Rightarrow> channel \<Rightarrow> bool"
  USE_EXTERNAL_EMOJIS :: int
  ADD_REACTIONS :: int

text \<open>What a run does to the outside: requests, log lines and awaited timers.\<close>

datatype event =
    RestPut message string "rest_error option"
  | Warn_failed_to_add_reaction rest_error
  | Info_added_reaction string char
  | Delay nat
  | Warn_could_not_find_emoji "string option" string
  | Warn_error_processing_text
  | Info_using_cached_guilds
  | Warn_failed_to_fetch_user_guilds rest_error
  | Warn_failed_to_fetch_emojis string rest_error
  | Warn_failed_to_get_user_guilds rest_error

section \<open>Permission checks\<close>

definition hasPermission :: "host \<Rightarrow> string \<Rightarrow> int \<Rightarrow> bool" where
  "hasPermission h channelId permission =
     (case getChannel h channelId of
        None \<Rightarrow> True
      | Some channel \<Rightarrow> if isPrivate channel then True else can h permission channel)"

definition hasExternalEmojiPerms :: "host \<Rightarrow> string \<Rightarrow> bool" where
  "hasExternalEmojiPerms h channelId = hasPermission h channelId (USE_EXTERNAL_EMOJIS h)"

definition hasAddReactionsPerms :: "host \<Rightarrow> string \<Rightarrow> bool" where
  "hasAddReactionsPerms h channelId = hasPermission h channelId (ADD_REACTIONS h)"

section \<open>The planning and dispatch run\<close>

text \<open>
  \<open>addReaction\<close>: the request for the \<open>n\<close>-th reaction of the run. A rejection is
  caught and logged, and the function returns \<open>false\<close>.
\<close>

definition addReaction :: "network \<Rightarrow> nat \<Rightarrow> message \<Rightarrow> string \<Rightarrow> bool \<times> event list" where
  "addReaction net n msg emoji =
     (case put_reaction net n of
        None \<Rightarrow> (True, [RestPut msg emoji None])
      | Some error \<Rightarrow> (False, [RestPut msg emoji (Some error), Warn_failed_to_add_reaction error]))"

text \<open>
  The comparator key of the sort in \<open>processText\<close>: the registry number of a space
  identifier, 999 for an identifier that is not in the registry.
\<close>

definition registry_index :: "string \<Rightarrow> nat" where
  "registry_index i = (case find (\<lambda>p. snd p = i) GUILD_IDS of Some p \<Rightarrow> fst p | None \<Rightarrow> 999)"

text \<open>Reading an array at an index: \<open>undefined\<close> outside the array.\<close>

definition js_nth :: "'a list \<Rightarrow> int \<Rightarrow> 'a option" where
  "js_nth xs i = (if 0 \<le> i \<and> i < int (length xs) then Some (xs ! nat i) else None)"

text \<open>
  One record per iteration of the character loop of \<open>processText\<close>, holding the locals
  of the iteration and what it did. \<open>it_guild\<close> is \<open>None\<close> when the selected array slot
  is \<open>undefined\<close>; reading its emojis throws, which ends the loop.
\<close>

record iteration =
  it_char :: char
  usageIndex :: nat
  guildIndex :: int
  it_guild :: "guild option"
  emojiName :: "string option"
  it_emoji :: "emoji option"
  effects :: "event list"

text \<open>
  The value of \<open>charUsageCount[char]\<close> once the entry has been created with 0 where it
  was missing.
\<close>

definition usage_of :: "(char \<rightharpoonup> nat) \<Rightarrow> char \<Rightarrow> nat" where
  "usage_of charUsageCount char = (case charUsageCount char of None \<Rightarrow> 0 | Some u \<Rightarrow> u)"

text \<open>
  The loop over \<open>upperText\<close>. \<open>charUsageCount\<close> is the usage object, \<open>n\<close> the number
  of reaction requests made so far. The usage entry is read into \<open>usageIndex\<close> and
  incremented at the end of the iteration in both branches.
\<close>

fun processLoop ::
  "network \<Rightarrow> message \<Rightarrow> guild list \<Rightarrow> (char \<rightharpoonup> nat) \<Rightarrow> nat \<Rightarrow> string \<Rightarrow> iteration list"
where
  "processLoop net msg sortedGuilds charUsageCount n [] = []"
| "processLoop net msg sortedGuilds charUsageCount n (char # rest) =
     (let usageIndex = usage_of charUsageCount char;
          guildIndex = min (int usageIndex) (int (length sortedGuilds) - 1);
          emojiName = map_of EMOJI_TEXT_MAPPING char;
          this = \<lparr>it_char = char, usageIndex = usageIndex, guildIndex = guildIndex,
                   it_guild = None, emojiName = emojiName, it_emoji = None, effects = []\<rparr>
      in case js_nth sortedGuilds guildIndex of
           None \<Rightarrow> [this]
         | Some guild \<Rightarrow>
             (case find (\<lambda>e. Some (emoji_name e) = emojiName) (emojis guild) of
                Some emoji \<Rightarrow>
                  (let added = addReaction net n msg (emoji_name emoji @ '':'' @ emoji_id emoji)
                   in this\<lparr>it_guild := Some guild, it_emoji := Some emoji,
                           effects := snd added
                             @ [Info_added_reaction (emoji_name emoji) char, Delay 350]\<rparr>
                      # processLoop net msg sortedGuilds
                          (charUsageCount(char \<mapsto> usageIndex + 1)) (n + 1) rest)
              | None \<Rightarrow>
                  this\<lparr>it_guild := Some guild,
                       effects := [Warn_could_not_find_emoji emojiName (guild_id guild)]\<rparr>
                  # processLoop net msg sortedGuilds
                      (charUsageCount(char \<mapsto> usageIndex + 1)) n rest))"

text \<open>
  \<open>processText\<close>: a validation message is shown and nothing is sent; otherwise the
  loop runs on the spaces sorted by registry number and the dialog closes, unless the loop
  threw, which is caught, logged and shown.
\<close>

datatype outcome =
    ValidationError error_message
  | Closed "iteration list"
  | ProcessingError "iteration list"

definition threw :: "iteration list \<Rightarrow> bool" where
  "threw its = list_ex (\<lambda>i. it_guild i = None) its"

definition processText :: "network \<Rightarrow> message \<Rightarrow> guild list \<Rightarrow> string \<Rightarrow> outcome" where
  "processText net msg guilds text =
     (let upperText = toUpperCase text
      in case validateText guilds upperText of
           Some error \<Rightarrow> ValidationError error
         | None \<Rightarrow>
             (let sortedGuilds = sort_key (\<lambda>g. registry_index (guild_id g)) guilds;
                  its = processLoop net msg sortedGuilds Map.empty 0 upperText
              in if threw its then ProcessingError its else Closed its))"

fun iterations :: "outcome \<Rightarrow> iteration list" where
  "iterations (ValidationError e) = []"
| "iterations (Closed its) = its"
| "iterations (ProcessingError its) = its"

text \<open>The effects of a run in order; a caught throw adds its log line.\<close>

fun trace :: "outcome \<Rightarrow> event list" where
  "trace (ValidationError e) = []"
| "trace (Closed its) = concat (map effects its)"
| "trace (ProcessingError its) = concat (map effects its) @ [Warn_error_processing_text]"

text \<open>
  A reaction directive: the character, the identifier of the space chosen for it and the
  emoji found there. An iteration issues one exactly when it found the emoji.
\<close>

type_synonym directive = "char \<times> string \<times> emoji"

fun directive_of :: "iteration \<Rightarrow> directive option" where
  "directive_of i =
     (case (it_guild i, it_emoji i) of
        (Some g, Some e) \<Rightarrow> Some (it_char i, guild_id g, e)
      | _ \<Rightarrow> None)"

definition directives :: "iteration list \<Rightarrow> directive list" where
  "directives its = List.map_filter directive_of its"

text \<open>The requests and the pauses of a trace, in order, without the log lines.\<close>

datatype pace = Call | Pause nat

fun pace_of :: "event \<Rightarrow> pace option" where
  "pace_of (RestPut m e r) = Some Call"
| "pace_of (Delay ms) = Some (Pause ms)"
| "pace_of _ = None"

definition pacing :: "event list \<Rightarrow> pace list" where
  "pacing evs = List.map_filter pace_of evs"

text \<open>The iterations that issue a directive, in order.\<close>

definition issued :: "iteration list \<Rightarrow> iteration list" where
  "issued its = filter (\<lambda>i. directive_of i \<noteq> None) its"

text \<open>The emoji references sent to the reaction endpoint, in order.\<close>

fun request_of :: "event \<Rightarrow> string option" where
  "request_of (RestPut m e r) = Some e"
| "request_of _ = None"

definition requests :: "event list \<Rightarrow> string list" where
  "requests evs = List.map_filter request_of evs"

definition reference :: "directive \<Rightarrow> string" where
  "reference d = emoji_name (snd (snd d)) @ '':'' @ emoji_id (snd (snd d))"

text \<open>The number of earlier occurrences of the character at position \<open>p\<close>.\<close>

definition occurrence_index :: "string \<Rightarrow> nat \<Rightarrow> nat" where
  "occurrence_index t p = count_list (take p t) (t ! p)"

section \<open>Directory lookup\<close>

text \<open>
  The plugin object's mutable fields. \<open>currentModalKey\<close> is \<open>None\<close> for \<open>null\<close>; a
  key handed out by the host's \<open>openModal\<close> is a non-empty string.
\<close>

record plugin =
  lastClickTime :: int
  currentModalKey :: "string option"
  cachedGuilds :: "guild list"
  lastGuildCount :: nat

text \<open>
  An asynchronous function either returns a value (\<open>Inr\<close>) or rejects (\<open>Inl\<close>); the log
  lines it wrote come with the result. A space summary of the directory service is
  represented by its identifier.
\<close>

definition fetchUserGuilds :: "network \<Rightarrow> event list \<times> (rest_error + string list)" where
  "fetchUserGuilds net =
     (case get_user_guilds net of
        Inr body \<Rightarrow> ([], Inr body)
      | Inl error \<Rightarrow> ([Warn_failed_to_fetch_user_guilds error], Inr []))"

definition fetchGuildEmojis :: "network \<Rightarrow> string \<Rightarrow> event list \<times> (rest_error + emoji list)" where
  "fetchGuildEmojis net guildId =
     (case get_guild_emojis net guildId of
        Inr body \<Rightarrow> ([], Inr body)
      | Inl error \<Rightarrow> ([Warn_failed_to_fetch_emojis guildId error], Inr []))"

text \<open>The loop of \<open>getUserGuilds\<close> over the user's spaces, building \<open>joinedTargetGuilds\<close>.\<close>

fun joinTargetGuilds ::
  "network \<Rightarrow> string list \<Rightarrow> string list \<Rightarrow> event list \<times> (rest_error + guild list)"
where
  "joinTargetGuilds net targetGuildIds [] = ([], Inr [])"
| "joinTargetGuilds net targetGuildIds (g # rest) =
     (if g \<in> set targetGuildIds then
        (case fetchGuildEmojis net g of
           (evs, Inl error) \<Rightarrow> (evs, Inl error)
         | (evs, Inr es) \<Rightarrow>
             (case joinTargetGuilds net targetGuildIds rest of
                (evs', Inl error) \<Rightarrow> (evs @ evs', Inl error)
              | (evs', Inr joined) \<Rightarrow>
                  (evs @ evs', Inr (\<lparr>guild_id = g, emojis = es\<rparr> # joined))))
      else joinTargetGuilds net targetGuildIds rest)"

text \<open>
  \<open>getUserGuilds\<close>, with the host's current space count as an argument. A rejection
  anywhere in its body is caught, logged and answered with the empty list.
\<close>

definition getUserGuilds ::
  "network \<Rightarrow> nat \<Rightarrow> plugin \<Rightarrow> plugin \<times> event list \<times> (rest_error + guild list)"
where
  "getUserGuilds net currentGuildCount this =
     (if cachedGuilds this \<noteq> [] \<and> currentGuildCount = lastGuildCount this
      then (this, [Info_using_cached_guilds], Inr (cachedGuilds this))
      else
        (let this1 = this\<lparr>lastGuildCount := currentGuildCount\<rparr>;
             targetGuildIds = map snd GUILD_IDS
         in case fetchUserGuilds net of
              (evs, Inl error) \<Rightarrow> (this1, evs @ [Warn_failed_to_get_user_guilds error], Inr [])
            | (evs, Inr userGuilds) \<Rightarrow>
                (case joinTargetGuilds net targetGuildIds userGuilds of
                   (evs', Inl error) \<Rightarrow>
                     (this1, evs @ evs' @ [Warn_failed_to_get_user_guilds error], Inr [])
                 | (evs', Inr joinedTargetGuilds) \<Rightarrow>
                     (this1\<lparr>cachedGuilds := joinedTargetGuilds\<rparr>, evs @ evs',
                      Inr joinedTargetGuilds))))"

section \<open>The entry point\<close>

record button =
  label :: string
  button_message :: message

definition renderMessagePopoverButton :: "host \<Rightarrow> message \<Rightarrow> button option" where
  "renderMessagePopoverButton h msg =
     (if \<not> hasAddReactionsPerms h (channel_id msg) then None
      else Some \<lparr>label = ''Text to Emojis'', button_message = msg\<rparr>)"

text \<open>
  The click handler of the button. \<open>currentTime\<close> is the clock reading and \<open>key\<close> the
  key the host's \<open>openModal\<close> would hand out.
\<close>

datatype click = OnCooldown | ClosedModal string | Notice error_message | OpenedModal string

definition onClick :: "host \<Rightarrow> string \<Rightarrow> int \<Rightarrow> message \<Rightarrow> plugin \<Rightarrow> plugin \<times> click" where
  "onClick h key currentTime msg this =
     (if currentTime - lastClickTime this < 250 then (this, OnCooldown)
      else
        (let this1 = this\<lparr>lastClickTime := currentTime\<rparr>
         in case currentModalKey this1 of
              Some open_key \<Rightarrow> (this1\<lparr>currentModalKey := None\<rparr>, ClosedModal open_key)
            | None \<Rightarrow>
                if \<not> hasAddReactionsPerms h (channel_id msg)
                then (this1, Notice NO_REACT_PERMISSION)
                else if \<not> hasExternalEmojiPerms h (channel_id msg)
                then (this1, Notice NO_NITRO)
                else (this1\<lparr>currentModalKey := Some key\<rparr>, OpenedModal key)))"

section \<open>The validation rules in the specification's terms\<close>

text \<open>
  The vocabulary of the specification's rules, over the raw text: the permitted alphabet,
  white-space-only texts, the number of occurrences of a character in the upper-cased text,
  and the order in which the distinct characters of a text are first met.
\<close>

definition alphabet :: "char set" where
  "alphabet = set (map fst EMOJI_TEXT_MAPPING)"

definition blank :: "string \<Rightarrow> bool" where
  "blank t \<longleftrightarrow> (\<forall>c \<in> set t. isWhiteSpace c)"

definition permitted :: "char \<Rightarrow> bool" where
  "permitted c \<longleftrightarrow> (case toUpperCase_char c of [u] \<Rightarrow> u \<in> alphabet | _ \<Rightarrow> False)"

definition permitted_text :: "string \<Rightarrow> bool" where
  "permitted_text t \<longleftrightarrow> (\<forall>c \<in> set t. permitted c)"

definition occurrences :: "string \<Rightarrow> char \<Rightarrow> nat" where
  "occurrences t c = count_list (toUpperCase t) c"

definition repeats_above :: "nat \<Rightarrow> string \<Rightarrow> bool" where
  "repeats_above n t \<longleftrightarrow> (\<exists>c \<in> set (toUpperCase t). n < occurrences t c)"

definition first_occurrences :: "string \<Rightarrow> string" where
  "first_occurrences t = rev (remdups (rev t))"

text \<open>
  The order in which the distinct characters of a text are enumerated from its count
  object: digits ascending, then every other character in order of first occurrence.
\<close>

definition enumeration_order :: "string \<Rightarrow> string" where
  "enumeration_order t =
     filter (\<lambda>d. d \<in> set t) index_keys
     @ filter (\<lambda>c. array_index c = None) (first_occurrences t)"

definition exceeding_chars :: "nat \<Rightarrow> string \<Rightarrow> string" where
  "exceeding_chars k t =
     filter (\<lambda>c. k < occurrences t c) (enumeration_order (toUpperCase t))"

text \<open>The validation rules, numbered as in the specification, and the message of each.\<close>

datatype rule = EmptyRule | LengthRule | CharacterRule | CeilingRule | SpaceCountRule

fun fails :: "nat \<Rightarrow> string \<Rightarrow> rule \<Rightarrow> bool" where
  "fails k t EmptyRule = blank t"
| "fails k t LengthRule = (20 < length t)"
| "fails k t CharacterRule = (\<not> permitted_text t)"
| "fails k t CeilingRule = repeats_above 6 t"
| "fails k t SpaceCountRule = repeats_above k t"

definition first_failure :: "nat \<Rightarrow> string \<Rightarrow> rule option" where
  "first_failure k t =
     find (fails k t) [EmptyRule, LengthRule, CharacterRule, CeilingRule, SpaceCountRule]"

fun rule_of :: "error_message \<Rightarrow> rule option" where
  "rule_of EMPTY_TEXT = Some EmptyRule"
| "rule_of TOO_MANY_CHARS_TOTAL = Some LengthRule"
| "rule_of INVALID_CHAR = Some CharacterRule"
| "rule_of TOO_MANY_CHARS = Some CeilingRule"
| "rule_of (SINGLE_CHAR_LIMIT c) = Some SpaceCountRule"
| "rule_of (NOT_ENOUGH_GUILDS cs) = Some SpaceCountRule"
| "rule_of NO_REACT_PERMISSION = None"
| "rule_of NO_NITRO = None"
| "rule_of NOT_IN_SERVER = None"

section \<open>Sample data\<close>

text \<open>
  A catalog with the emojis of \<open>H\<close> and \<open>I\<close>, the six registry spaces each holding that
  catalog, in registry order, and the first two of them.
\<close>

definition sample_catalog :: "emoji list" where
  "sample_catalog =
     [\<lparr>emoji_name = ''H_'', emoji_id = ''1001''\<rparr>, \<lparr>emoji_name = ''I_'', emoji_id = ''1002''\<rparr>]"

definition six_guilds :: "guild list" where
  "six_guilds = map (\<lambda>p. \<lparr>guild_id = snd p, emojis = sample_catalog\<rparr>) GUILD_IDS"

definition two_guilds :: "guild list" where
  "two_guilds = take 2 six_guilds"

definition sample_message :: message where
  "sample_message = \<lparr>channel_id = ''7001'', message_id = ''8001''\<rparr>"

text \<open>A network on which every request resolves, and one that rejects the first reaction.\<close>

definition all_resolve :: network where
  "all_resolve = \<lparr>put_reaction = (\<lambda>n. None), get_user_guilds = Inr (map snd GUILD_IDS),
                   get_guild_emojis = (\<lambda>i. Inr sample_catalog)\<rparr>"

definition all_reject :: network where
  "all_reject = \<lparr>put_reaction = (\<lambda>n. Some (Rejected 500)), get_user_guilds = Inl (Rejected 500),
                  get_guild_emojis = (\<lambda>i. Inl (Rejected 500))\<rparr>"

definition fresh_plugin :: plugin where
  "fresh_plugin = \<lparr>lastClickTime = 0, currentModalKey = None, cachedGuilds = [],
                     lastGuildCount = 0\<rparr>"

text \<open>A host that resolves no channel and grants nothing.\<close>

definition bare_host :: host where
  "bare_host = \<lparr>getChannel = (\<lambda>i. None), can = (\<lambda>p c. False),
                  USE_EXTERNAL_EMOJIS = 262144, ADD_REACTIONS = 64\<rparr>"

definition first_put_rejected :: network where
  "first_put_rejected =
     all_resolve\<lparr>put_reaction := (\<lambda>n. if n = 0 then Some (Rejected 429) else None)\<rparr>"

lemma trim_empty_iff: "trim s = [] \<longleftrightarrow> blank s"
proof
  assume t: "trim s = []"
  show "blank s"
  proof (rule ccontr)
    assume "\<not> blank s"
    then have ne: "dropWhile isWhiteSpace s \<noteq> []"
      by (auto simp: blank_def dropWhile_eq_Nil_conv)
    then have "\<not> isWhiteSpace (hd (dropWhile isWhiteSpace s))"
      by (rule hd_dropWhile)
    moreover have "hd (dropWhile isWhiteSpace s) \<in> set (dropWhile isWhiteSpace s)"
      using ne by simp
    ultimately show False
      using t by (auto simp: trim_def dropWhile_eq_Nil_conv)
  qed
next
  assume "blank s"
  then have e: "dropWhile isWhiteSpace s = []"
    unfolding blank_def by (induction s) auto
  show "trim s = []"
    unfolding trim_def e by simp
qed

lemma mapping_values_nonempty: "\<forall>p \<in> set EMOJI_TEXT_MAPPING. snd p \<noteq> []"
  by (simp add: EMOJI_TEXT_MAPPING_def)

lemma mapped_iff: "mapped [c] \<longleftrightarrow> c \<in> alphabet"
proof (cases "map_of EMOJI_TEXT_MAPPING c")
  case None
  then have "c \<notin> alphabet" by (simp add: alphabet_def map_of_eq_None_iff)
  with None show ?thesis by (simp add: mapped_def)
next
  case (Some n)
  then have "(c, n) \<in> set EMOJI_TEXT_MAPPING" by (rule map_of_SomeD)
  with mapping_values_nonempty have "n \<noteq> []" and "c \<in> alphabet"
    by (force simp: alphabet_def)+
  with Some show ?thesis by (simp add: mapped_def)
qed

lemma space_in_alphabet: "CHR '' '' \<in> alphabet"
  by (simp add: alphabet_def EMOJI_TEXT_MAPPING_def)

lemma invalid_iff: "\<not> mapped s \<and> s \<noteq> '' '' \<longleftrightarrow> \<not> (case s of [u] \<Rightarrow> u \<in> alphabet | _ \<Rightarrow> False)"
proof (cases s)
  case Nil
  then show ?thesis by (simp add: mapped_def)
next
  case (Cons u rest)
  show ?thesis
  proof (cases rest)
    case Nil
    with Cons show ?thesis using space_in_alphabet by (auto simp: mapped_iff)
  next
    case (Cons v rest')
    with \<open>s = u # rest\<close> show ?thesis by (simp add: mapped_def)
  qed
qed

lemma has_invalid_char_iff: "has_invalid_char s \<longleftrightarrow> (\<exists>c \<in> set s. \<not> permitted c)"
  by (induction s) (simp_all add: Let_def invalid_iff permitted_def)

lemma obj_set_keys:
  "map fst (obj_set obj k v) = (if k \<in> fst ` set obj then map fst obj else map fst obj @ [k])"
  by (induction obj) auto

lemma obj_set_lookup: "map_of (obj_set obj k v) = (map_of obj)(k \<mapsto> v)"
  by (induction obj) (auto simp: fun_eq_iff)

lemma count_step_lookup:
  "map_of (count_step obj x) =
     (map_of obj)(x \<mapsto> (case map_of obj x of Some n \<Rightarrow> if n \<noteq> 0 then n + 1 else 1 | None \<Rightarrow> 1))"
  by (simp add: count_step_def obj_get_def obj_set_lookup split: option.splits)

lemma countCharacters_snoc: "countCharacters (s @ [c]) = count_step (countCharacters s) c"
  by (simp add: countCharacters_def)

lemma countCharacters_lookup:
  "map_of (countCharacters s) c = (if c \<in> set s then Some (count_list s c) else None)"
proof (induction s arbitrary: c rule: rev_induct)
  case Nil
  then show ?case by (simp add: countCharacters_def)
next
  case (snoc x xs)
  have "map_of (countCharacters (xs @ [x])) c =
          (if c = x then Some (count_list xs x + 1) else map_of (countCharacters xs) c)"
    using snoc.IH[of x]
    by (simp add: countCharacters_snoc count_step_lookup split: if_splits)
  then show ?case
    using snoc.IH[of c] by simp
qed

lemma countCharacters_keys: "map fst (countCharacters s) = first_occurrences s"
proof (induction s rule: rev_induct)
  case Nil
  then show ?case by (simp add: countCharacters_def first_occurrences_def)
next
  case (snoc x xs)
  have dom: "fst ` set (countCharacters xs) = set xs"
    using snoc.IH[symmetric] by (metis first_occurrences_def list.set_map set_remdups set_rev)
  show ?case
    using snoc.IH
    by (simp add: countCharacters_snoc count_step_def obj_set_keys dom first_occurrences_def
        split: option.splits)
qed

lemma countCharacters_set:
  "set (countCharacters s) = (\<lambda>c. (c, count_list s c)) ` set s"
proof -
  have d: "distinct (map fst (countCharacters s))"
    by (simp add: countCharacters_keys first_occurrences_def)
  show ?thesis
  proof (rule set_eqI)
    fix p :: "char \<times> nat"
    obtain c n where p: "p = (c, n)" by (cases p)
    have "(c, n) \<in> set (countCharacters s) \<longleftrightarrow> map_of (countCharacters s) c = Some n"
      using d by simp
    also have "\<dots> \<longleftrightarrow> c \<in> set s \<and> n = count_list s c"
      by (auto simp: countCharacters_lookup)
    finally show "p \<in> set (countCharacters s) \<longleftrightarrow> p \<in> (\<lambda>c. (c, count_list s c)) ` set s"
      using p by auto
  qed
qed

lemma countCharacters_eq:
  "countCharacters s = map (\<lambda>c. (c, count_list s c)) (first_occurrences s)"
proof -
  have "\<forall>p \<in> set (countCharacters s). p = (fst p, count_list s (fst p))"
    by (auto simp: countCharacters_set)
  then have "countCharacters s = map (\<lambda>p. (fst p, count_list s (fst p))) (countCharacters s)"
    by (simp add: map_idI)
  also have "\<dots> = map (\<lambda>c. (c, count_list s c)) (map fst (countCharacters s))"
    by simp
  finally show ?thesis by (simp only: countCharacters_keys)
qed

lemma greater_Math_max: "greater (Math_max xs) n \<longleftrightarrow> (\<exists>x \<in> set xs. n < x)"
  by (induction xs) (auto split: option.splits)

lemma set_Object_entries: "set (Object_entries obj) = set obj"
  by (auto simp: Object_entries_def)

lemma array_index_digit: "array_index c \<noteq> None \<longleftrightarrow> c \<in> set index_keys"
  by (simp add: array_index_def index_keys_def)

lemma key_index_digits: "map key_index index_keys = [0, 1, 2, 3, 4, 5, 6, 7, 8, 9]"
  by (simp add: key_index_def array_index_def index_keys_def)

lemma key_index_inj: "inj_on key_index (set index_keys)"
proof -
  have "distinct (map key_index index_keys)"
    unfolding key_index_digits by simp
  then show ?thesis by (simp only: distinct_map)
qed

lemma sorted_digit_keys:
  assumes d: "distinct (map fst ps)" and sub: "fst ` set ps \<subseteq> set index_keys"
  shows "map fst (sort_key (\<lambda>p. key_index (fst p)) ps)
         = filter (\<lambda>d. d \<in> fst ` set ps) index_keys"
proof -
  let ?R = "map fst (sort_key (\<lambda>p. key_index (fst p)) ps)"
  let ?D = "filter (\<lambda>d. d \<in> fst ` set ps) index_keys"
  have setR: "set ?R = fst ` set ps" by simp
  have setD: "set ?D = fst ` set ps" using sub by auto
  have "sorted (map (\<lambda>p. key_index (fst p)) (sort_key (\<lambda>p. key_index (fst p)) ps))"
    by (rule sorted_sort_key)
  then have 1: "sorted (map key_index ?R)"
    by (simp add: comp_def)
  have dR: "distinct ?R" using d by (simp add: distinct_map)
  have injR: "inj_on key_index (set ?R)"
    using key_index_inj sub unfolding setR by (rule inj_on_subset)
  have 2: "distinct (map key_index ?R)" using dR injR by (simp only: distinct_map)
  have srt: "sorted (map key_index index_keys)"
    unfolding key_index_digits by simp
  have 3: "sorted (map key_index ?D)" using srt by (rule sorted_filter)
  have dst: "distinct (map key_index index_keys)"
    unfolding key_index_digits by simp
  have 4: "distinct (map key_index ?D)" using dst by (rule distinct_map_filter)
  have "set ?R = set ?D" using setR setD by (rule trans[OF _ sym])
  then have 5: "set (map key_index ?R) = set (map key_index ?D)"
    by (simp only: set_map)
  have eq: "map key_index ?R = map key_index ?D"
    using 1 2 3 4 5 by (rule sorted_distinct_set_unique)
  have "set ?R \<union> set ?D \<subseteq> set index_keys"
    using sub unfolding setR setD by simp
  with key_index_inj have "inj_on key_index (set ?R \<union> set ?D)"
    by (rule inj_on_subset)
  then show ?thesis using eq by (simp only: inj_on_map_eq_map)
qed

lemma array_index_None: "array_index c = None \<longleftrightarrow> c \<notin> set index_keys"
  using array_index_digit[of c] by blast

lemma array_index_SomeD: "array_index c = Some y \<Longrightarrow> c \<in> set index_keys"
  using array_index_digit[of c] by simp

lemma keys_Object_entries_countCharacters:
  "map fst (Object_entries (countCharacters u)) = enumeration_order u"
proof -
  let ?cc = "countCharacters u"
  let ?dg = "filter (\<lambda>p. array_index (fst p) \<noteq> None) ?cc"
  have dk: "distinct (map fst ?cc)"
    by (simp add: countCharacters_keys first_occurrences_def)
  have keys: "fst ` set ?cc = set u"
    by (simp add: countCharacters_set image_image)
  have d: "distinct (map fst ?dg)"
    using dk by (rule distinct_map_filter)
  have sub: "fst ` set ?dg \<subseteq> set index_keys"
    by (auto dest: array_index_SomeD)
  have dset: "fst ` set ?dg = {c \<in> set u. c \<in> set index_keys}"
    using keys by (auto simp: array_index_None dest: array_index_SomeD)
  have "map fst (sort_key (\<lambda>p. key_index (fst p)) ?dg)
        = filter (\<lambda>d. d \<in> fst ` set ?dg) index_keys"
    using d sub by (rule sorted_digit_keys)
  also have "\<dots> = filter (\<lambda>d. d \<in> set u) index_keys"
    unfolding dset by (rule filter_cong) auto
  finally have digits: "map fst (sort_key (\<lambda>p. key_index (fst p)) ?dg)
        = filter (\<lambda>d. d \<in> set u) index_keys" .
  have "map fst (filter (\<lambda>p. array_index (fst p) = None) ?cc)
        = filter (\<lambda>c. array_index c = None) (map fst ?cc)"
    by (simp add: filter_map comp_def)
  then have others: "map fst (filter (\<lambda>p. array_index (fst p) = None) ?cc)
        = filter (\<lambda>c. array_index c = None) (first_occurrences u)"
    by (simp only: countCharacters_keys)
  show ?thesis
    unfolding Object_entries_def enumeration_order_def map_append digits others ..
qed

lemma Object_entries_countCharacters:
  "Object_entries (countCharacters u) = map (\<lambda>c. (c, count_list u c)) (enumeration_order u)"
proof -
  let ?es = "Object_entries (countCharacters u)"
  have "\<forall>p \<in> set ?es. (fst p, count_list u (fst p)) = p"
    by (auto simp: set_Object_entries countCharacters_set)
  then have "map (\<lambda>p. (fst p, count_list u (fst p))) ?es = ?es"
    by (simp add: map_idI)
  then have "?es = map (\<lambda>c. (c, count_list u c)) (map fst ?es)"
    by (simp add: comp_def)
  then show ?thesis by (simp only: keys_Object_entries_countCharacters)
qed

lemma maxCount_greater:
  "greater (Math_max (Object_values (countCharacters (toUpperCase t)))) n \<longleftrightarrow> repeats_above n t"
  by (auto simp: greater_Math_max Object_values_def set_Object_entries countCharacters_set
      repeats_above_def occurrences_def image_image)

lemma charsExceeding_eq:
  "map (\<lambda>p. [fst p]) (filter (\<lambda>p. k < snd p) (Object_entries (countCharacters (toUpperCase t))))
   = map (\<lambda>c. [c]) (exceeding_chars k t)"
  by (simp add: Object_entries_countCharacters filter_map comp_def exceeding_chars_def
      occurrences_def)

lemma validateText_rules:
  "validateText guilds input =
     (if blank input then Some EMPTY_TEXT
      else if 20 < length input then Some TOO_MANY_CHARS_TOTAL
      else if \<not> permitted_text input then Some INVALID_CHAR
      else if repeats_above 6 input then Some TOO_MANY_CHARS
      else if repeats_above (length guilds) input then
        (if length (exceeding_chars (length guilds) input) = 1
         then Some (SINGLE_CHAR_LIMIT [exceeding_chars (length guilds) input ! 0])
         else Some (NOT_ENOUGH_GUILDS
                (join '', '' (map (\<lambda>c. [c]) (exceeding_chars (length guilds) input)))))
      else None)"
proof -
  have inv: "has_invalid_char input \<longleftrightarrow> \<not> permitted_text input"
    by (simp add: has_invalid_char_iff permitted_text_def)
  show ?thesis
    unfolding validateText_def Let_def trim_empty_iff inv maxCount_greater charsExceeding_eq
    by (simp add: nth_map)
qed

lemma exceeding_chars_set: "set (exceeding_chars k t) = {c. k < occurrences t c}"
proof -
  have "set (enumeration_order u) = set u" for u
    by (auto simp: enumeration_order_def first_occurrences_def array_index_None)
  moreover have "k < count_list u c \<Longrightarrow> c \<in> set u" for u c
    by (rule ccontr) (simp add: count_list_0_iff)
  ultimately show ?thesis
    by (auto simp: exceeding_chars_def occurrences_def)
qed

lemma exceeding_chars_distinct: "distinct (exceeding_chars k t)"
proof -
  have "distinct (filter (\<lambda>d. d \<in> set u) index_keys)" for u
    by (simp add: index_keys_def)
  moreover have "distinct (filter (\<lambda>c. array_index c = None) (first_occurrences u))" for u
    by (simp add: first_occurrences_def)
  ultimately have "distinct (enumeration_order u)" for u
    by (auto simp: enumeration_order_def array_index_None)
  then show ?thesis by (simp add: exceeding_chars_def)
qed

section \<open>Lemmas on the planning and dispatch run\<close>





lemma toUpperCase_char_nonempty: "toUpperCase_char c \<noteq> []"
  by (simp add: toUpperCase_char_def split: option.splits)

lemma js_nth_clamped:
  "xs \<noteq> [] \<Longrightarrow> js_nth xs (min (int i) (int (length xs) - 1)) = Some (xs ! min i (length xs - 1))"
proof -
  assume "xs \<noteq> []"
  then have "0 < length xs" by simp
  then have "min (int i) (int (length xs) - 1) = int (min i (length xs - 1))"
    by linarith
  moreover have "min i (length xs - 1) < length xs"
    using \<open>0 < length xs\<close> by linarith
  ultimately show ?thesis by (simp add: js_nth_def)
qed

lemma js_nth_empty: "js_nth [] i = None"
  by (simp add: js_nth_def)

lemma usage_of_upd: "usage_of (u(c \<mapsto> v)) x = (if x = c then v else usage_of u x)"
  by (simp add: usage_of_def)

lemma pacing_Nil: "pacing [] = []"
  by (simp add: pacing_def map_filter_def)

lemma pacing_Cons:
  "pacing (e # evs) = (case pace_of e of None \<Rightarrow> pacing evs | Some p \<Rightarrow> p # pacing evs)"
  by (simp add: pacing_def map_filter_def split: option.splits)

lemma directives_Nil: "directives [] = []"
  by (simp add: directives_def map_filter_def)

lemma pacing_append: "pacing (xs @ ys) = pacing xs @ pacing ys"
  by (simp add: pacing_def map_filter_def)

lemma pacing_addReaction: "pacing (snd (addReaction net n msg e)) = [Call]"
  by (simp add: addReaction_def pacing_def map_filter_def split: option.splits)

lemma directives_Cons:
  "directives (i # its) =
     (case directive_of i of None \<Rightarrow> directives its | Some d \<Rightarrow> d # directives its)"
  by (simp add: directives_def map_filter_def split: option.splits)

text \<open>One iteration unfolded, with the locals substituted.\<close>

lemma processLoop_step:
  "processLoop net msg gs u n (c # rest) =
     (case js_nth gs (min (int (usage_of u c)) (int (length gs) - 1)) of
        None \<Rightarrow>
          [\<lparr>it_char = c, usageIndex = usage_of u c,
            guildIndex = min (int (usage_of u c)) (int (length gs) - 1),
            it_guild = None, emojiName = map_of EMOJI_TEXT_MAPPING c, it_emoji = None,
            effects = []\<rparr>]
      | Some g \<Rightarrow>
          (case find (\<lambda>e. Some (emoji_name e) = map_of EMOJI_TEXT_MAPPING c) (emojis g) of
             Some emoji \<Rightarrow>
               \<lparr>it_char = c, usageIndex = usage_of u c,
                guildIndex = min (int (usage_of u c)) (int (length gs) - 1),
                it_guild = Some g, emojiName = map_of EMOJI_TEXT_MAPPING c, it_emoji = Some emoji,
                effects = snd (addReaction net n msg (emoji_name emoji @ '':'' @ emoji_id emoji))
                  @ [Info_added_reaction (emoji_name emoji) c, Delay 350]\<rparr>
               # processLoop net msg gs (u(c \<mapsto> usage_of u c + 1))
                   (n + 1) rest
           | None \<Rightarrow>
               \<lparr>it_char = c, usageIndex = usage_of u c,
                guildIndex = min (int (usage_of u c)) (int (length gs) - 1),
                it_guild = Some g, emojiName = map_of EMOJI_TEXT_MAPPING c, it_emoji = None,
                effects = [Warn_could_not_find_emoji (map_of EMOJI_TEXT_MAPPING c) (guild_id g)]\<rparr>
               # processLoop net msg gs (u(c \<mapsto> usage_of u c + 1))
                   n rest))"
  by (simp add: Let_def split: option.splits)

declare processLoop.simps(2) [simp del]

text \<open>The first iteration and the state handed to the rest of the loop.\<close>

lemma processLoop_Cons:
  assumes "gs \<noteq> []"
  shows "\<exists>h n'. processLoop net msg gs u n (c # rest)
            = h # processLoop net msg gs (u(c \<mapsto> usage_of u c + 1)) n' rest
          \<and> it_char h = c
          \<and> usageIndex h = usage_of u c
          \<and> guildIndex h = min (int (usageIndex h)) (int (length gs) - 1)
          \<and> it_guild h = Some (gs ! min (usageIndex h) (length gs - 1))"
proof -
  define ui where "ui = usage_of u c"
  define g where "g = gs ! min ui (length gs - 1)"
  define nm where "nm = map_of EMOJI_TEXT_MAPPING c"
  have nth: "js_nth gs (min (int ui) (int (length gs) - 1)) = Some g"
    unfolding g_def using assms by (rule js_nth_clamped)
  have "\<exists>h n'. processLoop net msg gs u n (c # rest)
            = h # processLoop net msg gs (u(c \<mapsto> ui + 1)) n' rest
          \<and> it_char h = c \<and> usageIndex h = ui
          \<and> guildIndex h = min (int (usageIndex h)) (int (length gs) - 1)
          \<and> it_guild h = Some (gs ! min (usageIndex h) (length gs - 1))"
  proof (cases "find (\<lambda>e. Some (emoji_name e) = nm) (emojis g)")
    case None
    show ?thesis
      unfolding processLoop_step ui_def[symmetric] nm_def[symmetric] nth None option.case
      by (intro exI conjI, rule refl) (simp_all add: g_def)
  next
    case (Some e)
    show ?thesis
      unfolding processLoop_step ui_def[symmetric] nm_def[symmetric] nth Some option.case
      by (intro exI conjI, rule refl) (simp_all add: g_def)
  qed
  then show ?thesis unfolding ui_def .
qed

lemma processLoop_length: "gs \<noteq> [] \<Longrightarrow> length (processLoop net msg gs u n t) = length t"
proof (induction t arbitrary: u n)
  case Nil
  then show ?case by simp
next
  case (Cons c rest)
  from processLoop_Cons[OF Cons.prems, of net msg u n c rest]
  obtain h n' where "processLoop net msg gs u n (c # rest)
      = h # processLoop net msg gs (u(c \<mapsto> usage_of u c + 1)) n' rest"
    by blast
  then show ?case using Cons.IH[OF Cons.prems] by simp
qed

lemma processLoop_empty_guilds:
  "processLoop net msg [] u n (c # rest)
     = [\<lparr>it_char = c, usageIndex = usage_of u c,
         guildIndex = min (int (usage_of u c)) (- 1),
         it_guild = None, emojiName = map_of EMOJI_TEXT_MAPPING c, it_emoji = None,
         effects = []\<rparr>]"
  by (simp add: processLoop_step js_nth_empty)

lemma processLoop_nth:
  assumes "p < length (processLoop net msg gs u n t)"
  shows "it_char (processLoop net msg gs u n t ! p) = t ! p
       \<and> usageIndex (processLoop net msg gs u n t ! p)
           = usage_of u (t ! p) + count_list (take p t) (t ! p)
       \<and> guildIndex (processLoop net msg gs u n t ! p)
           = min (int (usageIndex (processLoop net msg gs u n t ! p))) (int (length gs) - 1)
       \<and> it_guild (processLoop net msg gs u n t ! p)
           = js_nth gs (guildIndex (processLoop net msg gs u n t ! p))"
  using assms
proof (induction t arbitrary: u n p)
  case Nil
  then show ?case by simp
next
  case (Cons c rest)
  show ?case
  proof (cases "gs = []")
    case True
    with Cons.prems have "p = 0" by (simp add: processLoop_empty_guilds)
    with True show ?thesis by (simp add: processLoop_empty_guilds js_nth_empty)
  next
    case False
    let ?u' = "u(c \<mapsto> usage_of u c + 1)"
    from processLoop_Cons[OF False, of net msg u n c rest]
    obtain h n' where step: "processLoop net msg gs u n (c # rest) = h # processLoop net msg gs ?u' n' rest"
      and h: "it_char h = c" "usageIndex h = usage_of u c"
        "guildIndex h = min (int (usageIndex h)) (int (length gs) - 1)"
        "it_guild h = Some (gs ! min (usageIndex h) (length gs - 1))"
      by blast
    show ?thesis
    proof (cases p)
      case 0
      with step h js_nth_clamped[OF False, of "usageIndex h"] show ?thesis by simp
    next
      case (Suc q)
      with Cons.prems step have q: "q < length (processLoop net msg gs ?u' n' rest)" by simp
      have nthS: "processLoop net msg gs u n (c # rest) ! p = processLoop net msg gs ?u' n' rest ! q"
        using step Suc by simp
      have tp: "(c # rest) ! p = rest ! q" using Suc by simp
      have key: "usage_of ?u' (rest ! q) + count_list (take q rest) (rest ! q)
            = usage_of u (rest ! q) + count_list (take p (c # rest)) (rest ! q)"
        using Suc by (simp add: usage_of_upd)
      from Cons.IH[OF q] show ?thesis
        unfolding nthS tp key[symmetric] by blast
    qed
  qed
qed

lemma processLoop_pacing:
  "pacing (concat (map effects (processLoop net msg gs u n t)))
     = concat (replicate (length (directives (processLoop net msg gs u n t))) [Call, Pause 350])"
proof (induction t arbitrary: u n)
  case Nil
  then show ?case by (simp add: pacing_Nil directives_Nil)
next
  case (Cons c rest)
  define u' where "u' = u(c \<mapsto> usage_of u c + 1)"
  show ?case
    unfolding processLoop_step u'_def[symmetric]
    by (simp add: directives_Cons directives_Nil pacing_append pacing_addReaction pacing_Cons
        pacing_Nil Cons.IH[of u'] split: option.splits)
qed

lemma processLoop_directives_network:
  "directives (processLoop net msg gs u n t) = directives (processLoop net' msg gs u n' t)"
proof (induction t arbitrary: u n n')
  case Nil
  then show ?case by simp
next
  case (Cons c rest)
  define u' where "u' = u(c \<mapsto> usage_of u c + 1)"
  show ?case
    unfolding processLoop_step u'_def[symmetric]
    using Cons.IH[of u' n n'] Cons.IH[of u' "n + 1" "n' + 1"]
    by (simp add: directives_Cons directives_Nil split: option.splits)
qed

lemma processLoop_not_threw: "gs \<noteq> [] \<Longrightarrow> \<not> threw (processLoop net msg gs u n t)"
proof -
  assume gs: "gs \<noteq> []"
  have "it_guild i \<noteq> None" if "i \<in> set (processLoop net msg gs u n t)" for i
  proof -
    from that obtain p where p: "p < length (processLoop net msg gs u n t)"
      and i: "i = processLoop net msg gs u n t ! p"
      by (auto simp: in_set_conv_nth)
    from processLoop_nth[OF p] i
    have "it_guild i = js_nth gs (min (int (usageIndex i)) (int (length gs) - 1))" by simp
    with js_nth_clamped[OF gs, of "usageIndex i"] show ?thesis by simp
  qed
  then show ?thesis by (auto simp: threw_def list_ex_iff)
qed

lemma not_blank_repeats: "\<not> blank t \<Longrightarrow> repeats_above 0 t"
proof -
  assume "\<not> blank t"
  then obtain c where "c \<in> set t" by (auto simp: blank_def)
  moreover obtain x where "x \<in> set (toUpperCase_char c)"
    using toUpperCase_char_nonempty[of c] by (cases "toUpperCase_char c") auto
  ultimately have x: "x \<in> set (toUpperCase t)" by (auto simp: toUpperCase_def)
  then have "occurrences t x \<noteq> 0"
    unfolding occurrences_def by (simp only: count_list_0_iff not_not)
  then have "0 < occurrences t x" by simp
  with x show ?thesis unfolding repeats_above_def by blast
qed

lemma validated_guilds_nonempty: "validateText guilds t = None \<Longrightarrow> guilds \<noteq> []"
proof
  assume v: "validateText guilds t = None" and "guilds = []"
  from v have "\<not> blank t" by (auto simp: validateText_rules split: if_splits)
  then have "repeats_above 0 t" by (rule not_blank_repeats)
  with v \<open>guilds = []\<close> show False by (auto simp: validateText_rules split: if_splits)
qed


lemma processText_validated:
  assumes "validateText guilds (toUpperCase text) = None"
  shows "processText net msg guilds text =
           Closed (processLoop net msg (sort_key (\<lambda>g. registry_index (guild_id g)) guilds)
                     Map.empty 0 (toUpperCase text))"
proof -
  from assms have "guilds \<noteq> []" by (rule validated_guilds_nonempty)
  then have "sort_key (\<lambda>g. registry_index (guild_id g)) guilds \<noteq> []"
    by (metis length_sort list.size(3) length_0_conv)
  then show ?thesis
    using assms by (simp add: processText_def Let_def processLoop_not_threw)
qed



lemma requests_Nil: "requests [] = []"
  by (simp add: requests_def map_filter_def)

lemma requests_Cons:
  "requests (e # evs) = (case request_of e of None \<Rightarrow> requests evs | Some r \<Rightarrow> r # requests evs)"
  by (simp add: requests_def map_filter_def split: option.splits)

lemma requests_append: "requests (xs @ ys) = requests xs @ requests ys"
  by (simp add: requests_def map_filter_def)

lemma requests_addReaction: "requests (snd (addReaction net n msg e)) = [e]"
  by (simp add: addReaction_def requests_def map_filter_def split: option.splits)

lemma processLoop_requests:
  "requests (concat (map effects (processLoop net msg gs u n t)))
     = map reference (directives (processLoop net msg gs u n t))"
proof (induction t arbitrary: u n)
  case Nil
  then show ?case by (simp add: requests_Nil directives_Nil)
next
  case (Cons c rest)
  define u' where "u' = u(c \<mapsto> usage_of u c + 1)"
  show ?case
    unfolding processLoop_step u'_def[symmetric]
    by (simp add: directives_Cons directives_Nil requests_append requests_addReaction
        requests_Cons requests_Nil reference_def Cons.IH[of u'] split: option.splits)
qed

lemma count_paces:
  "count_list (concat (replicate k [Call, Pause 350])) Call = k
   \<and> count_list (concat (replicate k [Call, Pause 350])) (Pause 350) = k"
  by (induction k) simp_all

lemma registry_order:
  assumes "map guild_id guilds = map snd GUILD_IDS"
  shows "sort_key (\<lambda>g. registry_index (guild_id g)) guilds = guilds"
proof -
  have "map (\<lambda>g. registry_index (guild_id g)) guilds = map registry_index (map guild_id guilds)"
    by simp
  also have "\<dots> = [1, 2, 3, 4, 5, 6]"
    unfolding assms by (simp add: GUILD_IDS_def registry_index_def)
  finally have "sorted (map (\<lambda>g. registry_index (guild_id g)) guilds)" by simp
  then show ?thesis by (rule sort_key_id_if_sorted)
qed
lemma addReaction_effects:
  "snd (addReaction net n msg ref) =
     RestPut msg ref (put_reaction net n)
     # (case put_reaction net n of None \<Rightarrow> [] | Some error \<Rightarrow> [Warn_failed_to_add_reaction error])"
  by (simp add: addReaction_def split: option.splits)

lemma processLoop_head_effects:
  assumes "gs \<noteq> []"
  shows "\<exists>h n'. processLoop net msg gs u n (c # rest)
            = h # processLoop net msg gs (u(c \<mapsto> usage_of u c + 1)) n' rest
          \<and> (\<forall>e. it_emoji h = Some e \<longrightarrow>
                effects h = snd (addReaction net n msg (emoji_name e @ '':'' @ emoji_id e))
                  @ [Info_added_reaction (emoji_name e) (it_char h), Delay 350])"
proof -
  define ui where "ui = usage_of u c"
  define g where "g = gs ! min ui (length gs - 1)"
  define nm where "nm = map_of EMOJI_TEXT_MAPPING c"
  have nth: "js_nth gs (min (int ui) (int (length gs) - 1)) = Some g"
    unfolding g_def using assms by (rule js_nth_clamped)
  show ?thesis
  proof (cases "find (\<lambda>e. Some (emoji_name e) = nm) (emojis g)")
    case None
    show ?thesis
      unfolding processLoop_step ui_def[symmetric] nm_def[symmetric] nth None option.case
      by (intro exI conjI, rule refl) simp
  next
    case (Some e)
    show ?thesis
      unfolding processLoop_step ui_def[symmetric] nm_def[symmetric] nth Some option.case
      by (intro exI conjI, rule refl) simp
  qed
qed

lemma processLoop_effects:
  assumes "i \<in> set (processLoop net msg gs u n t)" and "it_emoji i = Some e"
  shows "\<exists>r. effects i =
           RestPut msg (emoji_name e @ '':'' @ emoji_id e) r
           # (case r of None \<Rightarrow> [] | Some error \<Rightarrow> [Warn_failed_to_add_reaction error])
           @ [Info_added_reaction (emoji_name e) (it_char i), Delay 350]"
  using assms
proof (induction t arbitrary: u n)
  case Nil
  then show ?case by simp
next
  case (Cons c rest)
  show ?case
  proof (cases "gs = []")
    case True
    with Cons.prems show ?thesis by (simp add: processLoop_empty_guilds)
  next
    case False
    from processLoop_head_effects[OF False, of net msg u n c rest]
    obtain h n' where step: "processLoop net msg gs u n (c # rest)
          = h # processLoop net msg gs (u(c \<mapsto> usage_of u c + 1)) n' rest"
      and h: "\<forall>e. it_emoji h = Some e \<longrightarrow>
                effects h = snd (addReaction net n msg (emoji_name e @ '':'' @ emoji_id e))
                  @ [Info_added_reaction (emoji_name e) (it_char h), Delay 350]"
      by blast
    from Cons.prems(1) step
    consider "i = h" | "i \<in> set (processLoop net msg gs (u(c \<mapsto> usage_of u c + 1)) n' rest)"
      by auto
    then show ?thesis
    proof cases
      case 1
      with h Cons.prems(2)
      have "effects i = snd (addReaction net n msg (emoji_name e @ '':'' @ emoji_id e))
                  @ [Info_added_reaction (emoji_name e) (it_char i), Delay 350]"
        by simp
      then show ?thesis
        unfolding addReaction_effects by (intro exI[of _ "put_reaction net n"]) simp
    next
      case 2
      then show ?thesis using Cons.prems(2) by (rule Cons.IH)
    qed
  qed
qed


lemma two_guilds_length: "length two_guilds = 2"
  by (simp add: two_guilds_def six_guilds_def GUILD_IDS_def)

lemma six_guilds_ids: "map guild_id six_guilds = map snd GUILD_IDS"
  by (simp add: six_guilds_def)

lemma joinTargetGuilds_returns: "\<exists>evs joined. joinTargetGuilds net targets gs = (evs, Inr joined)"
proof (induction gs)
  case Nil
  then show ?case by simp
next
  case (Cons g rest)
  then obtain evs joined where "joinTargetGuilds net targets rest = (evs, Inr joined)" by blast
  then show ?case
    by (simp add: fetchGuildEmojis_def split: sum.splits)
qed

lemma getUserGuilds_returns: "\<exists>joined. snd (snd (getUserGuilds net count this)) = Inr joined"
proof -
  obtain evs joined where
    "joinTargetGuilds net (map snd GUILD_IDS) (case get_user_guilds net of Inr b \<Rightarrow> b | Inl e \<Rightarrow> [])
       = (evs, Inr joined)"
    using joinTargetGuilds_returns by blast
  then show ?thesis
    by (simp add: getUserGuilds_def fetchUserGuilds_def Let_def split: sum.splits)
qed

lemma getUserGuilds_membership_failure:
  assumes "get_user_guilds net = Inl e"
    and "\<not> (cachedGuilds this \<noteq> [] \<and> count = lastGuildCount this)"
  shows "snd (snd (getUserGuilds net count this)) = Inr []"
  using assms by (auto simp: getUserGuilds_def fetchUserGuilds_def Let_def)

lemma issued_Nil: "issued [] = []"
  by (simp add: issued_def)

lemma issued_Cons:
  "issued (i # its) = (if directive_of i = None then issued its else i # issued its)"
  by (simp add: issued_def)

lemma issued_directives: "map directive_of (issued its) = map Some (directives its)"
  by (induction its) (auto simp: issued_Nil issued_Cons directives_Nil directives_Cons)

text \<open>The iteration that issues directive number \<open>j\<close> and the answer to its request.\<close>

lemma processLoop_issued_effects:
  assumes "j < length (directives (processLoop net msg gs u n t))"
  shows "effects (issued (processLoop net msg gs u n t) ! j)
          = RestPut msg (reference (directives (processLoop net msg gs u n t) ! j))
              (put_reaction net (n + j))
            # (case put_reaction net (n + j) of
                 None \<Rightarrow> []
               | Some error \<Rightarrow> [Warn_failed_to_add_reaction error])
            @ [Info_added_reaction
                 (emoji_name (snd (snd (directives (processLoop net msg gs u n t) ! j))))
                 (fst (directives (processLoop net msg gs u n t) ! j)), Delay 350]"
  using assms
proof (induction t arbitrary: u n j)
  case Nil
  then show ?case by (simp add: directives_Nil)
next
  case (Cons c rest)
  define u' where "u' = u(c \<mapsto> usage_of u c + 1)"
  define gi where "gi = min (int (usage_of u c)) (int (length gs) - 1)"
  define nm where "nm = map_of EMOJI_TEXT_MAPPING c"
  note step = processLoop_step[of net msg gs u n c rest, folded u'_def gi_def nm_def]
  show ?case
  proof (cases "js_nth gs gi")
    case None
    with Cons.prems show ?thesis
      unfolding step by (simp add: directives_Cons directives_Nil)
  next
    case g: (Some g)
    define found where "found = find (\<lambda>e. Some (emoji_name e) = nm) (emojis g)"
    note step' = step[unfolded g option.case, folded found_def]
    show ?thesis
    proof (cases found)
      case None
      have eq: "directives (processLoop net msg gs u n (c # rest))
            = directives (processLoop net msg gs u' n rest)"
        "issued (processLoop net msg gs u n (c # rest))
            = issued (processLoop net msg gs u' n rest)"
        unfolding step' None by (simp_all add: directives_Cons issued_Cons)
      from Cons.prems show ?thesis
        unfolding eq by (rule Cons.IH)
    next
      case (Some e)
      define h where "h = \<lparr>it_char = c, usageIndex = usage_of u c, guildIndex = gi,
          it_guild = Some g, emojiName = nm, it_emoji = Some e,
          effects = snd (addReaction net n msg (emoji_name e @ '':'' @ emoji_id e))
            @ [Info_added_reaction (emoji_name e) c, Delay 350]\<rparr>"
      have eq: "directives (processLoop net msg gs u n (c # rest))
            = (c, guild_id g, e) # directives (processLoop net msg gs u' (n + 1) rest)"
        "issued (processLoop net msg gs u n (c # rest))
            = h # issued (processLoop net msg gs u' (n + 1) rest)"
        unfolding step' Some h_def by (simp_all add: directives_Cons issued_Cons)
      show ?thesis
      proof (cases j)
        case 0
        then show ?thesis
          unfolding eq by (simp add: h_def addReaction_effects reference_def)
      next
        case (Suc k)
        with Cons.prems have "k < length (directives (processLoop net msg gs u' (n + 1) rest))"
          unfolding eq by simp
        from Cons.IH[OF this] Suc show ?thesis
          unfolding eq by simp
      qed
    qed
  qed
qed

section \<open>Properties of the validator\<close>

text \<open>
  Claim C3, amended. A text that is not white-space-only, has at most 20 characters, uses
  only characters whose upper-case form is in the character table, and in whose upper-cased
  form no character occurs more than \<open>min 6 (length guilds)\<close> times, is accepted:
  \<open>validateText\<close> returns \<open>null\<close>.
\<close>

theorem validate_accepts:
  assumes "\<not> blank t" and "length t \<le> 20" and "permitted_text t"
    and "\<not> repeats_above (min 6 (length guilds)) t"
  shows "validateText guilds t = None"
proof -
  have "\<not> repeats_above 6 t" and "\<not> repeats_above (length guilds) t"
    using assms(4) by (auto simp: repeats_above_def)
  with assms(1-3) show ?thesis
    by (simp add: validateText_rules)
qed

theorem validate_accepts_witness:
  "\<not> blank ''Hi'' \<and> length ''Hi'' \<le> 20 \<and> permitted_text ''Hi''
   \<and> \<not> repeats_above (min 6 (length two_guilds)) ''Hi''
   \<and> validateText two_guilds ''Hi'' = None"
proof -
  have 1: "\<not> blank ''Hi''" by (simp add: blank_def isWhiteSpace_def)
  have 2: "length ''Hi'' \<le> 20" by simp
  have 3: "permitted_text ''Hi''"
    by code_simp
  have 4: "\<not> repeats_above (min 6 (length two_guilds)) ''Hi''"
    by code_simp
  from 1 2 3 4 validate_accepts[OF 1 2 3 4] show ?thesis by blast
qed

text \<open>
  Claim C3 as stated leaves out the first rule: the text of one space has one character of
  the table, occurring once, and is rejected as empty.
\<close>

theorem validate_blank_counterexample:
  "length '' '' \<le> 20 \<and> permitted_text '' '' \<and> \<not> repeats_above (min 6 (length two_guilds)) '' ''
   \<and> validateText two_guilds '' '' = Some EMPTY_TEXT"
  by code_simp

text \<open>
  Claim C4. For every text and every membership list, \<open>validateText\<close> returns the
  message of the first rule that fails in the order empty, length, character, repeat
  ceiling, space count, and \<open>null\<close> when no rule fails; 21 letters \<open>A\<close> are
  rejected as too long.
\<close>

theorem validate_first_failure:
  "(first_failure (length guilds) t = None \<longrightarrow> validateText guilds t = None)
   \<and> (\<forall>r. first_failure (length guilds) t = Some r \<longrightarrow>
         (\<exists>e. validateText guilds t = Some e \<and> rule_of e = Some r))
   \<and> validateText guilds (replicate 21 CHR ''A'') = Some TOO_MANY_CHARS_TOTAL"
proof -
  have "validateText guilds (replicate 21 CHR ''A'') = Some TOO_MANY_CHARS_TOTAL"
    by (simp add: validateText_rules blank_def isWhiteSpace_def)
  then show ?thesis
    by (simp add: first_failure_def validateText_rules)
qed

theorem validate_first_failure_witness:
  "first_failure (length two_guilds) ''Hi'' = None \<and> validateText two_guilds ''Hi'' = None
   \<and> first_failure (length two_guilds) ''AAA'' = Some SpaceCountRule
   \<and> validateText two_guilds ''AAA'' = Some (SINGLE_CHAR_LIMIT ''A'')
   \<and> rule_of (SINGLE_CHAR_LIMIT ''A'') = Some SpaceCountRule"
proof -
  have 1: "first_failure (length two_guilds) ''Hi'' = None"
    by code_simp
  have 2: "first_failure (length two_guilds) ''AAA'' = Some SpaceCountRule"
    by code_simp
  have 3: "validateText two_guilds ''AAA'' = Some (SINGLE_CHAR_LIMIT ''A'')"
    by code_simp
  from validate_first_failure[of two_guilds "''Hi''"] 1
  have "validateText two_guilds ''Hi'' = None" by blast
  moreover from validate_first_failure[of two_guilds "''AAA''"] 2
  have "\<exists>e. validateText two_guilds ''AAA'' = Some e \<and> rule_of e = Some SpaceCountRule" by blast
  ultimately show ?thesis using 1 2 3 by simp
qed

text \<open>
  Claim C5, amended. For a text that reaches the fifth rule, the characters whose count
  exceeds the number of spaces are enumerated in the order of the count object: digits
  first in ascending order, then the other characters in order of first occurrence. One
  such character gives \<open>SINGLE_CHAR_LIMIT\<close> naming it; several give
  \<open>NOT_ENOUGH_GUILDS\<close> with the characters joined by a comma and a space in that order.
  With two spaces, \<open>AAA\<close> gives \<open>SINGLE_CHAR_LIMIT A\<close> and \<open>AAABBB\<close> gives
  \<open>NOT_ENOUGH_GUILDS\<close> of \<open>A, B\<close>.
\<close>

theorem validate_space_count:
  assumes "\<not> blank t" and "length t \<le> 20" and "permitted_text t" and "\<not> repeats_above 6 t"
  shows "distinct (exceeding_chars (length guilds) t)
     \<and> set (exceeding_chars (length guilds) t) = {c. length guilds < occurrences t c}
     \<and> (\<forall>c. exceeding_chars (length guilds) t = [c] \<longrightarrow>
           validateText guilds t = Some (SINGLE_CHAR_LIMIT [c]))
     \<and> (1 < length (exceeding_chars (length guilds) t) \<longrightarrow>
           validateText guilds t = Some (NOT_ENOUGH_GUILDS
             (join '', '' (map (\<lambda>c. [c]) (exceeding_chars (length guilds) t)))))
     \<and> (length guilds = 2 \<longrightarrow> t = ''AAA'' \<longrightarrow>
           validateText guilds t = Some (SINGLE_CHAR_LIMIT ''A''))
     \<and> (length guilds = 2 \<longrightarrow> t = ''AAABBB'' \<longrightarrow>
           validateText guilds t = Some (NOT_ENOUGH_GUILDS ''A, B''))"
proof -
  let ?k = "length guilds"
  let ?E = "exceeding_chars ?k t"
  have above: "repeats_above ?k t" if "?E \<noteq> []"
  proof -
    from that obtain c where "c \<in> set ?E" by (cases ?E) auto
    then have "?k < occurrences t c" by (simp add: exceeding_chars_set)
    moreover from this have "c \<in> set (toUpperCase t)"
      unfolding occurrences_def by (metis count_list_0_iff not_less_zero)
    ultimately show ?thesis by (auto simp: repeats_above_def)
  qed
  have rules: "validateText guilds t =
      (if repeats_above ?k t then
         (if length ?E = 1 then Some (SINGLE_CHAR_LIMIT [?E ! 0])
          else Some (NOT_ENOUGH_GUILDS (join '', '' (map (\<lambda>c. [c]) ?E))))
       else None)"
    using assms by (simp add: validateText_rules)
  have single: "validateText guilds t = Some (SINGLE_CHAR_LIMIT [c])" if "?E = [c]" for c
    using that above rules by simp
  have several: "validateText guilds t = Some (NOT_ENOUGH_GUILDS (join '', '' (map (\<lambda>c. [c]) ?E)))"
    if "1 < length ?E"
  proof -
    from that have "?E \<noteq> []" by auto
    with above rules that show ?thesis by simp
  qed
  have ex1: "validateText guilds t = Some (SINGLE_CHAR_LIMIT ''A'')"
    if "?k = 2" and "t = ''AAA''"
  proof -
    have "exceeding_chars 2 ''AAA'' = ''A''" by code_simp
    with that single show ?thesis by simp
  qed
  have ex2: "validateText guilds t = Some (NOT_ENOUGH_GUILDS ''A, B'')"
    if "?k = 2" and "t = ''AAABBB''"
  proof -
    have "exceeding_chars 2 ''AAABBB'' = ''AB''" by code_simp
    with that several show ?thesis by simp
  qed
  show ?thesis
    using exceeding_chars_distinct exceeding_chars_set single several ex1 ex2 by blast
qed

theorem validate_space_count_witness:
  "\<not> blank ''AAA111'' \<and> length ''AAA111'' \<le> 20 \<and> permitted_text ''AAA111''
   \<and> \<not> repeats_above 6 ''AAA111''
   \<and> exceeding_chars (length two_guilds) ''AAA111'' = ''1A''
   \<and> validateText two_guilds ''AAA111'' = Some (NOT_ENOUGH_GUILDS (join '', '' [''1'', ''A'']))"
proof -
  have 1: "\<not> blank ''AAA111''" by (simp add: blank_def isWhiteSpace_def)
  have 2: "length ''AAA111'' \<le> 20" by simp
  have 3: "permitted_text ''AAA111''"
    by code_simp
  have 4: "\<not> repeats_above 6 ''AAA111''"
    by code_simp
  have 5: "exceeding_chars (length two_guilds) ''AAA111'' = ''1A''"
    unfolding two_guilds_length by code_simp
  from validate_space_count[OF 1 2 3 4, of two_guilds] 5
  have "validateText two_guilds ''AAA111'' = Some (NOT_ENOUGH_GUILDS (join '', '' [''1'', ''A'']))"
    by simp
  with 1 2 3 4 5 show ?thesis by blast
qed

text \<open>
  Claim C5 as stated orders the characters by first occurrence in the input. In
  \<open>AAA111\<close> the letter comes first, yet the message lists the digit first.
\<close>

theorem exceeding_order_counterexample:
  "validateText two_guilds ''AAA111'' = Some (NOT_ENOUGH_GUILDS ''1, A'')
   \<and> validateText two_guilds ''AAA111'' \<noteq> Some (NOT_ENOUGH_GUILDS ''A, 1'')"
  by code_simp

text \<open>
  Claim C6, amended. For a text that passes the first three rules (not white-space-only,
  at most 20 characters, permitted characters only) and in whose upper-cased form some
  character occurs more than 6 times, \<open>validateText\<close> returns \<open>TOO_MANY_CHARS\<close>,
  whatever the number of spaces.
\<close>

theorem validate_repeat_ceiling:
  assumes "\<not> blank t" and "length t \<le> 20" and "permitted_text t" and "repeats_above 6 t"
  shows "validateText guilds t = Some TOO_MANY_CHARS"
  using assms by (simp add: validateText_rules)

theorem validate_repeat_ceiling_witness:
  "\<not> blank ''aAaAaAa'' \<and> length ''aAaAaAa'' \<le> 20 \<and> permitted_text ''aAaAaAa''
   \<and> repeats_above 6 ''aAaAaAa''
   \<and> validateText six_guilds ''aAaAaAa'' = Some TOO_MANY_CHARS
   \<and> validateText [] ''aAaAaAa'' = Some TOO_MANY_CHARS"
proof -
  have 1: "\<not> blank ''aAaAaAa''" by (simp add: blank_def isWhiteSpace_def)
  have 2: "length ''aAaAaAa'' \<le> 20" by simp
  have 3: "permitted_text ''aAaAaAa''"
    by code_simp
  have 4: "repeats_above 6 ''aAaAaAa''"
    by code_simp
  from 1 2 3 4 validate_repeat_ceiling[OF 1 2 3 4, of six_guilds]
    validate_repeat_ceiling[OF 1 2 3 4, of "[]"]
  show ?thesis by blast
qed

text \<open>
  Claim C6 as stated covers every text with a character repeated more than 6 times. The
  earlier rules win: 21 letters \<open>A\<close> are rejected as too long and 7 spaces as empty.
\<close>

theorem repeat_ceiling_counterexample:
  "repeats_above 6 ''AAAAAAAAAAAAAAAAAAAAA''
   \<and> validateText six_guilds ''AAAAAAAAAAAAAAAAAAAAA'' = Some TOO_MANY_CHARS_TOTAL
   \<and> repeats_above 6 ''       ''
   \<and> validateText six_guilds ''       '' = Some EMPTY_TEXT"
  by code_simp

section \<open>Properties of the planning and dispatch run\<close>

text \<open>
  Claim C1, amended. For the text \<open>HI\<close> and the six registry spaces in registry order,
  with emojis named \<open>H_\<close> and \<open>I_\<close> in the first space, the run closes with exactly two
  directives: \<open>H\<close> to the first space with \<open>H_\<close>, then \<open>I\<close> to the first space with
  \<open>I_\<close>. The usage counter is kept per character, so the first occurrence of every
  character goes to the first space.
\<close>

theorem plan_HI:
  assumes "map guild_id guilds = map snd GUILD_IDS"
    and "find (\<lambda>e. emoji_name e = ''H_'') (emojis (guilds ! 0)) = Some eH"
    and "find (\<lambda>e. emoji_name e = ''I_'') (emojis (guilds ! 0)) = Some eI"
  shows "\<exists>its. processText net msg guilds ''HI'' = Closed its
           \<and> directives its = [(CHR ''H'', ''1339215110685724742'', eH),
                               (CHR ''I'', ''1339215110685724742'', eI)]"
proof -
  have "length (map guild_id guilds) = length (map snd GUILD_IDS)"
    by (simp only: assms(1))
  then have len: "length guilds = 6" by (simp add: GUILD_IDS_def)
  have "map guild_id guilds ! 0 = map snd GUILD_IDS ! 0" by (simp only: assms(1))
  then have id0: "guild_id (guilds ! 0) = ''1339215110685724742''"
    using len by (simp add: GUILD_IDS_def)
  have up: "toUpperCase ''HI'' = ''HI''"
    by code_simp
  have "permitted_text ''HI''"
    by code_simp
  moreover have "\<not> repeats_above 6 ''HI''"
    by code_simp
  ultimately have "validateText guilds ''HI'' = None"
    by (simp add: validateText_rules len blank_def isWhiteSpace_def)
  then have run: "processText net msg guilds ''HI''
      = Closed (processLoop net msg guilds Map.empty 0 ''HI'')"
    using processText_validated[of guilds "''HI''" net msg]
    by (simp add: up registry_order[OF assms(1)])
  have nth0: "js_nth guilds (min 0 (int (length guilds) - 1)) = Some (guilds ! 0)"
    using len by (simp add: js_nth_def)
  have mH: "map_of EMOJI_TEXT_MAPPING CHR ''H'' = Some ''H_''"
    by (simp add: EMOJI_TEXT_MAPPING_def)
  have mI: "map_of EMOJI_TEXT_MAPPING CHR ''I'' = Some ''I_''"
    by (simp add: EMOJI_TEXT_MAPPING_def)
  have "directives (processLoop net msg guilds Map.empty 0 ''HI'')
        = [(CHR ''H'', ''1339215110685724742'', eH), (CHR ''I'', ''1339215110685724742'', eI)]"
    by (simp add: processLoop_step usage_of_def nth0 mH mI assms(2,3) directives_Cons
        directives_Nil id0)
  with run show ?thesis by blast
qed

theorem plan_HI_witness:
  "map guild_id six_guilds = map snd GUILD_IDS
   \<and> find (\<lambda>e. emoji_name e = ''H_'') (emojis (six_guilds ! 0))
       = Some \<lparr>emoji_name = ''H_'', emoji_id = ''1001''\<rparr>
   \<and> find (\<lambda>e. emoji_name e = ''I_'') (emojis (six_guilds ! 0))
       = Some \<lparr>emoji_name = ''I_'', emoji_id = ''1002''\<rparr>
   \<and> map fst (directives (iterations (processText all_resolve sample_message six_guilds ''HI'')))
       = ''HI''"
proof -
  have 1: "find (\<lambda>e. emoji_name e = ''H_'') (emojis (six_guilds ! 0))
       = Some \<lparr>emoji_name = ''H_'', emoji_id = ''1001''\<rparr>"
    by (simp add: six_guilds_def GUILD_IDS_def sample_catalog_def)
  have 2: "find (\<lambda>e. emoji_name e = ''I_'') (emojis (six_guilds ! 0))
       = Some \<lparr>emoji_name = ''I_'', emoji_id = ''1002''\<rparr>"
    by (simp add: six_guilds_def GUILD_IDS_def sample_catalog_def)
  from plan_HI[OF six_guilds_ids 1 2, of all_resolve sample_message]
  obtain its where "processText all_resolve sample_message six_guilds ''HI'' = Closed its"
    and "map fst (directives its) = ''HI''" by auto
  then have "map fst (directives (iterations
      (processText all_resolve sample_message six_guilds ''HI''))) = ''HI''"
    by simp
  with six_guilds_ids 1 2 show ?thesis by blast
qed

text \<open>
  Claim C1 as stated sends \<open>I\<close> to the second space. With \<open>H_\<close> and \<open>I_\<close> in every one
  of the six spaces, both directives name the first space.
\<close>

theorem plan_HI_counterexample:
  "directives (iterations (processText all_resolve sample_message six_guilds ''HI''))
     = [(CHR ''H'', ''1339215110685724742'', \<lparr>emoji_name = ''H_'', emoji_id = ''1001''\<rparr>),
        (CHR ''I'', ''1339215110685724742'', \<lparr>emoji_name = ''I_'', emoji_id = ''1002''\<rparr>)]
   \<and> directives (iterations (processText all_resolve sample_message six_guilds ''HI''))
     \<noteq> [(CHR ''H'', ''1339215110685724742'', \<lparr>emoji_name = ''H_'', emoji_id = ''1001''\<rparr>),
        (CHR ''I'', ''1339264485386621078'', \<lparr>emoji_name = ''I_'', emoji_id = ''1002''\<rparr>)]"
  by code_simp

text \<open>
  Claim C2, amended. In every run, the requests and pauses alternate: each of the \<open>n\<close>
  reaction requests is followed by one pause of 350 ms before the next request, whether
  the request succeeded or failed, and also after the last one. There are \<open>n\<close> requests
  and \<open>n\<close> pauses, \<open>n\<close> being the number of directives.
\<close>

theorem dispatch_pacing:
  "pacing (trace (processText net msg guilds text))
     = concat (replicate (length (directives (iterations (processText net msg guilds text))))
         [Call, Pause 350])
   \<and> count_list (pacing (trace (processText net msg guilds text))) Call
     = length (directives (iterations (processText net msg guilds text)))
   \<and> count_list (pacing (trace (processText net msg guilds text))) (Pause 350)
     = length (directives (iterations (processText net msg guilds text)))"
proof -
  have "pacing (trace (processText net msg guilds text))
     = concat (replicate (length (directives (iterations (processText net msg guilds text))))
         [Call, Pause 350])"
    by (simp add: processText_def Let_def pacing_Nil directives_Nil pacing_append pacing_Cons
        processLoop_pacing split: option.splits)
  then show ?thesis by (simp only: count_paces simp_thms)
qed

theorem dispatch_pacing_witness:
  "length (directives (iterations (processText first_put_rejected sample_message six_guilds ''HI''))) = 2
   \<and> pacing (trace (processText first_put_rejected sample_message six_guilds ''HI''))
     = [Call, Pause 350, Call, Pause 350]"
proof -
  have n: "length (directives (iterations
      (processText first_put_rejected sample_message six_guilds ''HI''))) = 2"
    by code_simp
  have "concat (replicate 2 [Call, Pause 350]) = [Call, Pause 350, Call, Pause 350]"
    by (simp add: numeral_2_eq_2)
  with n dispatch_pacing[of first_put_rejected sample_message six_guilds "''HI''"]
  show ?thesis by simp
qed

text \<open>
  Claim C2 as stated has no pause after a failed request and none after the last one. For
  \<open>HI\<close> with the first request rejected, a pause follows the rejected request and
  another follows the last request.
\<close>

theorem dispatch_pacing_counterexample:
  "trace (processText first_put_rejected sample_message six_guilds ''HI'')
     = [RestPut sample_message ''H_:1001'' (Some (Rejected 429)),
        Warn_failed_to_add_reaction (Rejected 429),
        Info_added_reaction ''H_'' CHR ''H'', Delay 350,
        RestPut sample_message ''I_:1002'' None,
        Info_added_reaction ''I_'' CHR ''I'', Delay 350]"
  by code_simp



text \<open>
  Claim C8. A rejected request never escapes. \<open>fetchUserGuilds\<close> and
  \<open>fetchGuildEmojis\<close> log it and return the empty list; \<open>getUserGuilds\<close> always
  returns a list, the empty one when the membership request is rejected. \<open>addReaction\<close>
  returns \<open>false\<close> after logging the rejection, and \<open>true\<close> without a log line
  otherwise. In a run, the requests sent are those of the directives, and the directives do
  not depend on the answers of the network. The iteration that issues directive number
  \<open>j\<close> sends its request, logs the rejection exactly when the network rejects request
  \<open>j\<close>, and goes on with the usual log line and pause, so that every rejection is in the
  trace. A validated text is processed to the last character of its upper-case form.
\<close>

theorem failures_contained:
  "(\<forall>e. get_user_guilds net = Inl e \<longrightarrow>
        fetchUserGuilds net = ([Warn_failed_to_fetch_user_guilds e], Inr []))
   \<and> (\<exists>body. snd (fetchUserGuilds net) = Inr body)
   \<and> (\<forall>e. get_guild_emojis net g = Inl e \<longrightarrow>
        fetchGuildEmojis net g = ([Warn_failed_to_fetch_emojis g e], Inr []))
   \<and> (\<exists>body. snd (fetchGuildEmojis net g) = Inr body)
   \<and> (\<exists>joined. snd (snd (getUserGuilds net count this)) = Inr joined)
   \<and> (\<forall>e. get_user_guilds net = Inl e \<longrightarrow>
        \<not> (cachedGuilds this \<noteq> [] \<and> count = lastGuildCount this) \<longrightarrow>
        snd (snd (getUserGuilds net count this)) = Inr [])
   \<and> (\<forall>error. put_reaction net n = Some error \<longrightarrow>
        addReaction net n msg ref
          = (False, [RestPut msg ref (Some error), Warn_failed_to_add_reaction error]))
   \<and> (put_reaction net n = None \<longrightarrow> addReaction net n msg ref = (True, [RestPut msg ref None]))
   \<and> requests (trace (processText net msg guilds input))
       = map reference (directives (iterations (processText net msg guilds input)))
   \<and> directives (iterations (processText net msg guilds input))
       = directives (iterations (processText net' msg guilds input))
   \<and> map directive_of (issued (iterations (processText net msg guilds input)))
       = map Some (directives (iterations (processText net msg guilds input)))
   \<and> (\<forall>j < length (directives (iterations (processText net msg guilds input))).
        effects (issued (iterations (processText net msg guilds input)) ! j)
          = RestPut msg (reference (directives (iterations (processText net msg guilds input)) ! j))
              (put_reaction net j)
            # (case put_reaction net j of
                 None \<Rightarrow> []
               | Some error \<Rightarrow> [Warn_failed_to_add_reaction error])
            @ [Info_added_reaction
                 (emoji_name (snd (snd (directives
                    (iterations (processText net msg guilds input)) ! j))))
                 (fst (directives (iterations (processText net msg guilds input)) ! j)),
               Delay 350])
   \<and> (\<forall>j error. j < length (directives (iterations (processText net msg guilds input))) \<longrightarrow>
        put_reaction net j = Some error \<longrightarrow>
        Warn_failed_to_add_reaction error \<in> set (trace (processText net msg guilds input)))
   \<and> (validateText guilds (toUpperCase input) = None \<longrightarrow>
        (\<exists>its. processText net msg guilds input = Closed its
           \<and> length its = length (toUpperCase input)))"
proof -
  have 1: "\<forall>e. get_user_guilds net = Inl e \<longrightarrow>
        fetchUserGuilds net = ([Warn_failed_to_fetch_user_guilds e], Inr [])"
    by (simp add: fetchUserGuilds_def)
  have 2: "\<exists>body. snd (fetchUserGuilds net) = Inr body"
    by (simp add: fetchUserGuilds_def split: sum.splits)
  have 3: "\<forall>e. get_guild_emojis net g = Inl e \<longrightarrow>
        fetchGuildEmojis net g = ([Warn_failed_to_fetch_emojis g e], Inr [])"
    by (simp add: fetchGuildEmojis_def)
  have 4: "\<exists>body. snd (fetchGuildEmojis net g) = Inr body"
    by (simp add: fetchGuildEmojis_def split: sum.splits)
  note 5 = getUserGuilds_returns[of net count this]
  have 6: "\<forall>e. get_user_guilds net = Inl e \<longrightarrow>
        \<not> (cachedGuilds this \<noteq> [] \<and> count = lastGuildCount this) \<longrightarrow>
        snd (snd (getUserGuilds net count this)) = Inr []"
    using getUserGuilds_membership_failure by blast
  have a1: "\<forall>error. put_reaction net n = Some error \<longrightarrow>
        addReaction net n msg ref
          = (False, [RestPut msg ref (Some error), Warn_failed_to_add_reaction error])"
    by (simp add: addReaction_def)
  have a2: "put_reaction net n = None \<longrightarrow> addReaction net n msg ref = (True, [RestPut msg ref None])"
    by (simp add: addReaction_def)
  let ?gs = "sort_key (\<lambda>g. registry_index (guild_id g)) guilds"
  let ?u = "toUpperCase input"
  let ?its = "iterations (processText net msg guilds input)"
  have shape: "processText k msg guilds input =
      (case validateText guilds ?u of
         Some error \<Rightarrow> ValidationError error
       | None \<Rightarrow> Closed (processLoop k msg ?gs Map.empty 0 ?u))" for k
    using processText_validated[of guilds input k msg]
    by (simp add: processText_def split: option.splits)
  have its: "?its = (case validateText guilds ?u of
         Some error \<Rightarrow> [] | None \<Rightarrow> processLoop net msg ?gs Map.empty 0 ?u)"
    unfolding shape by (simp split: option.splits)
  have tr: "trace (processText net msg guilds input) = concat (map effects ?its)"
    unfolding shape by (simp split: option.splits)
  have 7: "requests (trace (processText net msg guilds input)) = map reference (directives ?its)"
    unfolding shape
    by (simp add: requests_Nil directives_Nil processLoop_requests split: option.splits)
  have 8: "directives ?its = directives (iterations (processText net' msg guilds input))"
    unfolding shape
    using processLoop_directives_network[of net msg ?gs Map.empty 0 ?u net' 0]
    by (simp split: option.splits)
  have 9: "map directive_of (issued ?its) = map Some (directives ?its)"
    by (rule issued_directives)
  have 10: "effects (issued ?its ! j)
          = RestPut msg (reference (directives ?its ! j)) (put_reaction net j)
            # (case put_reaction net j of
                 None \<Rightarrow> []
               | Some error \<Rightarrow> [Warn_failed_to_add_reaction error])
            @ [Info_added_reaction (emoji_name (snd (snd (directives ?its ! j))))
                 (fst (directives ?its ! j)), Delay 350]"
    if "j < length (directives ?its)" for j
  proof (cases "validateText guilds ?u")
    case None
    with its have eq: "?its = processLoop net msg ?gs Map.empty 0 ?u" by simp
    from that show ?thesis
      unfolding eq using processLoop_issued_effects[of j net msg ?gs Map.empty 0 ?u] by simp
  next
    case (Some e)
    with its that show ?thesis by (simp add: directives_Nil)
  qed
  have 11: "Warn_failed_to_add_reaction error \<in> set (trace (processText net msg guilds input))"
    if "j < length (directives ?its)" and "put_reaction net j = Some error" for j error
  proof -
    from that(1) have "j < length (issued ?its)"
      using arg_cong[OF 9, of length] by simp
    then have "issued ?its ! j \<in> set ?its"
      using nth_mem[of j "issued ?its"] by (simp add: issued_def)
    moreover from 10[OF that(1)] that(2)
    have "Warn_failed_to_add_reaction error \<in> set (effects (issued ?its ! j))" by simp
    ultimately show ?thesis unfolding tr by auto
  qed
  have 12: "validateText guilds ?u = None \<longrightarrow>
        (\<exists>its. processText net msg guilds input = Closed its \<and> length its = length ?u)"
  proof
    assume v: "validateText guilds ?u = None"
    then have "guilds \<noteq> []" by (rule validated_guilds_nonempty)
    then have "?gs \<noteq> []" by (metis length_sort list.size(3) length_0_conv)
    then have "length (processLoop net msg ?gs Map.empty 0 ?u) = length ?u"
      by (rule processLoop_length)
    with v show "\<exists>its. processText net msg guilds input = Closed its \<and> length its = length ?u"
      unfolding shape by simp
  qed
  from 1 2 3 4 5 6 a1 a2 7 8 9 10 11 12 show ?thesis by blast
qed

theorem failures_contained_witness:
  "get_user_guilds all_reject = Inl (Rejected 500)
   \<and> fetchUserGuilds all_reject = ([Warn_failed_to_fetch_user_guilds (Rejected 500)], Inr [])
   \<and> snd (snd (getUserGuilds all_reject 3 fresh_plugin)) = Inr []
   \<and> put_reaction all_reject 0 = Some (Rejected 500)
   \<and> addReaction all_reject 0 sample_message ''H_:1001''
       = (False, [RestPut sample_message ''H_:1001'' (Some (Rejected 500)),
                  Warn_failed_to_add_reaction (Rejected 500)])
   \<and> requests (trace (processText all_reject sample_message six_guilds ''hi''))
       = [''H_:1001'', ''I_:1002'']
   \<and> effects (issued (iterations (processText all_reject sample_message six_guilds ''hi'')) ! 0)
       = [RestPut sample_message ''H_:1001'' (Some (Rejected 500)),
          Warn_failed_to_add_reaction (Rejected 500),
          Info_added_reaction ''H_'' CHR ''H'', Delay 350]
   \<and> Warn_failed_to_add_reaction (Rejected 500)
       \<in> set (trace (processText all_reject sample_message six_guilds ''hi''))
   \<and> validateText six_guilds (toUpperCase [CHR 0xDF]) = None
   \<and> length (toUpperCase [CHR 0xDF]) = 2
   \<and> length (iterations (processText all_reject sample_message six_guilds [CHR 0xDF])) = 2"
proof -
  have 1: "get_user_guilds all_reject = Inl (Rejected 500)" by (simp add: all_reject_def)
  have 2: "\<not> (cachedGuilds fresh_plugin \<noteq> [] \<and> 3 = lastGuildCount fresh_plugin)"
    by (simp add: fresh_plugin_def)
  have 3: "put_reaction all_reject 0 = Some (Rejected 500)" by (simp add: all_reject_def)
  have 4: "directives (iterations (processText all_resolve sample_message six_guilds ''hi''))
      = [(CHR ''H'', ''1339215110685724742'', \<lparr>emoji_name = ''H_'', emoji_id = ''1001''\<rparr>),
         (CHR ''I'', ''1339215110685724742'', \<lparr>emoji_name = ''I_'', emoji_id = ''1002''\<rparr>)]"
    by code_simp
  have 5: "validateText six_guilds (toUpperCase [CHR 0xDF]) = None" by code_simp
  have 6: "length (toUpperCase [CHR 0xDF]) = 2" by code_simp
  note t = failures_contained[of all_reject "''1''" 3 fresh_plugin 0 sample_message "''H_:1001''"
      six_guilds "''hi''" all_resolve]
  note s = failures_contained[of all_reject "''1''" 3 fresh_plugin 0 sample_message "''H_:1001''"
      six_guilds "[CHR 0xDF]" all_resolve]
  from t have b: "directives (iterations (processText all_reject sample_message six_guilds ''hi''))
      = directives (iterations (processText all_resolve sample_message six_guilds ''hi''))"
    by blast
  note d = b[unfolded 4]
  from t 1 have w1: "fetchUserGuilds all_reject
      = ([Warn_failed_to_fetch_user_guilds (Rejected 500)], Inr [])"
    by blast
  from t 1 2 have w2: "snd (snd (getUserGuilds all_reject 3 fresh_plugin)) = Inr []"
    by blast
  from t 3 have w3: "addReaction all_reject 0 sample_message ''H_:1001''
       = (False, [RestPut sample_message ''H_:1001'' (Some (Rejected 500)),
                  Warn_failed_to_add_reaction (Rejected 500)])"
    by blast
  from t have "requests (trace (processText all_reject sample_message six_guilds ''hi''))
      = map reference (directives (iterations
          (processText all_reject sample_message six_guilds ''hi'')))"
    by blast
  then have w4: "requests (trace (processText all_reject sample_message six_guilds ''hi''))
      = [''H_:1001'', ''I_:1002'']"
    unfolding d by (simp add: reference_def)
  have lt: "0 < length (directives (iterations
      (processText all_reject sample_message six_guilds ''hi'')))"
    unfolding d by simp
  from t lt have "effects (issued (iterations
        (processText all_reject sample_message six_guilds ''hi'')) ! 0)
      = RestPut sample_message (reference (directives (iterations
            (processText all_reject sample_message six_guilds ''hi'')) ! 0))
          (put_reaction all_reject 0)
        # (case put_reaction all_reject 0 of
             None \<Rightarrow> []
           | Some error \<Rightarrow> [Warn_failed_to_add_reaction error])
        @ [Info_added_reaction
             (emoji_name (snd (snd (directives (iterations
                (processText all_reject sample_message six_guilds ''hi'')) ! 0))))
             (fst (directives (iterations
                (processText all_reject sample_message six_guilds ''hi'')) ! 0)),
           Delay 350]"
    by blast
  then have w5: "effects (issued (iterations
        (processText all_reject sample_message six_guilds ''hi'')) ! 0)
       = [RestPut sample_message ''H_:1001'' (Some (Rejected 500)),
          Warn_failed_to_add_reaction (Rejected 500),
          Info_added_reaction ''H_'' CHR ''H'', Delay 350]"
    unfolding d 3 by (simp add: reference_def)
  from t lt 3 have w6: "Warn_failed_to_add_reaction (Rejected 500)
       \<in> set (trace (processText all_reject sample_message six_guilds ''hi''))"
    by blast
  from s 5 obtain its where "processText all_reject sample_message six_guilds [CHR 0xDF] = Closed its"
    and "length its = length (toUpperCase [CHR 0xDF])"
    by blast
  then have w7: "length (iterations
      (processText all_reject sample_message six_guilds [CHR 0xDF])) = 2"
    using 6 by simp
  from 1 w1 w2 3 w3 w4 w5 w6 5 6 w7 show ?thesis by blast
qed

text \<open>
  Claim C9. For a channel identifier that the channel store does not resolve, or resolves
  to a private channel, \<open>hasPermission\<close> is true for every permission; both gates pass,
  the button is rendered, and a click never ends in a permission notice.
\<close>

theorem private_channel_permissions:
  assumes "getChannel h channelId = None
           \<or> (\<exists>channel. getChannel h channelId = Some channel \<and> isPrivate channel)"
  shows "(\<forall>permission. hasPermission h channelId permission)
     \<and> hasAddReactionsPerms h channelId
     \<and> hasExternalEmojiPerms h channelId
     \<and> (\<forall>msg. channel_id msg = channelId \<longrightarrow> renderMessagePopoverButton h msg \<noteq> None)
     \<and> (\<forall>msg key currentTime this e. channel_id msg = channelId \<longrightarrow>
           snd (onClick h key currentTime msg this) \<noteq> Notice e)
     \<and> (\<forall>msg key currentTime this. channel_id msg = channelId \<longrightarrow>
           \<not> currentTime - lastClickTime this < 250 \<longrightarrow> currentModalKey this = None \<longrightarrow>
           snd (onClick h key currentTime msg this) = OpenedModal key)"
proof -
  from assms have p: "hasPermission h channelId permission" for permission
    by (auto simp: hasPermission_def)
  then have a: "hasAddReactionsPerms h channelId" and x: "hasExternalEmojiPerms h channelId"
    by (simp_all add: hasAddReactionsPerms_def hasExternalEmojiPerms_def)
  from a have r: "renderMessagePopoverButton h msg \<noteq> None" if "channel_id msg = channelId" for msg
    using that by (simp add: renderMessagePopoverButton_def)
  from a x have n: "snd (onClick h key currentTime msg this) \<noteq> Notice e"
    if "channel_id msg = channelId" for msg key currentTime this e
    using that by (simp add: onClick_def Let_def split: option.splits)
  from a x have opn: "snd (onClick h key currentTime msg this) = OpenedModal key"
    if "channel_id msg = channelId" and "\<not> currentTime - lastClickTime this < 250"
      and "currentModalKey this = None" for msg key currentTime this
    using that by (simp add: onClick_def Let_def)
  from p a x r n opn show ?thesis by blast
qed

theorem private_channel_permissions_witness:
  "getChannel bare_host ''7001'' = None
   \<and> hasPermission bare_host ''7001'' 64
   \<and> renderMessagePopoverButton bare_host sample_message \<noteq> None
   \<and> snd (onClick bare_host ''modal-1'' 1000 sample_message fresh_plugin) = OpenedModal ''modal-1''"
proof -
  have 1: "getChannel bare_host ''7001'' = None" by (simp add: bare_host_def)
  have 2: "channel_id sample_message = ''7001''" by (simp add: sample_message_def)
  have 3: "\<not> 1000 - lastClickTime fresh_plugin < 250" "currentModalKey fresh_plugin = None"
    by (simp_all add: fresh_plugin_def)
  from private_channel_permissions[of bare_host "''7001''"] 1 2 3 show ?thesis by blast
qed

text \<open>
  Claim C10. In every run, the usage counter read for a character equals the number of its
  earlier occurrences, whether or not these found an emoji, and the index chosen is
  \<open>min i (k - 1)\<close>. The counters and indices are the same under any network and any space
  list of the same length, whatever the emoji catalogs hold.
\<close>

theorem usage_counter:
  assumes "its = processLoop net msg gs Map.empty 0 t" and "p < length its"
  shows "usageIndex (its ! p) = occurrence_index t p
     \<and> guildIndex (its ! p) = min (int (occurrence_index t p)) (int (length gs) - 1)
     \<and> (\<forall>net' gs'. gs \<noteq> [] \<longrightarrow> length gs' = length gs \<longrightarrow>
           map usageIndex (processLoop net' msg gs' Map.empty 0 t) = map usageIndex its
           \<and> map guildIndex (processLoop net' msg gs' Map.empty 0 t) = map guildIndex its)"
proof -
  have idx: "usageIndex (processLoop n m g Map.empty 0 t ! r) = occurrence_index t r
      \<and> guildIndex (processLoop n m g Map.empty 0 t ! r)
          = min (int (occurrence_index t r)) (int (length g) - 1)"
    if "r < length (processLoop n m g Map.empty 0 t)" for n m g r
    using processLoop_nth[OF that] by (simp add: usage_of_def occurrence_index_def)
  have same: "map usageIndex (processLoop net' msg gs' Map.empty 0 t) = map usageIndex its
      \<and> map guildIndex (processLoop net' msg gs' Map.empty 0 t) = map guildIndex its"
    if "gs \<noteq> []" and "length gs' = length gs" for net' gs'
  proof -
    from that have gs': "gs' \<noteq> []" by auto
    have l: "length its = length t" unfolding assms(1) using that(1) by (rule processLoop_length)
    have l': "length (processLoop net' msg gs' Map.empty 0 t) = length t"
      using gs' by (rule processLoop_length)
    show ?thesis
      using l l' idx[of _ net' msg gs'] idx[of _ net msg gs, folded assms(1)] that(2)
      by (auto intro!: nth_equalityI)
  qed
  from idx[of p net msg gs, folded assms(1)] assms(2) same show ?thesis by blast
qed

theorem usage_counter_witness:
  "3 < length (processLoop all_reject sample_message two_guilds Map.empty 0 ''ZZZZ'')
   \<and> map it_emoji (processLoop all_reject sample_message two_guilds Map.empty 0 ''ZZZZ'')
       = [None, None, None, None]
   \<and> usageIndex (processLoop all_reject sample_message two_guilds Map.empty 0 ''ZZZZ'' ! 3) = 3
   \<and> guildIndex (processLoop all_reject sample_message two_guilds Map.empty 0 ''ZZZZ'' ! 3) = 1"
proof -
  have 1: "3 < length (processLoop all_reject sample_message two_guilds Map.empty 0 ''ZZZZ'')"
    by code_simp
  have 2: "map it_emoji (processLoop all_reject sample_message two_guilds Map.empty 0 ''ZZZZ'')
       = [None, None, None, None]"
    by code_simp
  have 3: "occurrence_index ''ZZZZ'' 3 = 3" by code_simp
  from usage_counter[OF refl 1] 1 2 3 show ?thesis by (simp add: two_guilds_length)
qed

end
